theory Spec2Isabelle
  imports Complex_Main "HOL-Library.Word"
begin

unbundle bit_operations_syntax

section \<open>Buffers and typed views\<close>

text \<open>
  An \<^verbatim>\<open>ArrayBuffer\<close> is the list of its bytes. The numbers that the code computes or
  reads itself (lengths, counters, sizes) are integral and modelled as \<^typ>\<open>int\<close>; the
  \<^verbatim>\<open>DataView\<close> setters reduce them modulo the width of the field, as \<^verbatim>\<open>ToUint32\<close>,
  \<^verbatim>\<open>ToUint16\<close> and \<^verbatim>\<open>ToUint8\<close> do. The caller's optional arguments are JavaScript
  values of any kind and are converted first (see below).
\<close>

type_synonym byte = "8 word"
type_synonym bytes = "byte list"

datatype error = TypeError | RangeError | UnexpectedChunk string

text \<open>\<^verbatim>\<open>new ArrayBuffer(n)\<close>: \<open>n\<close> zero bytes.\<close>

definition ArrayBuffer :: "nat \<Rightarrow> bytes" where
  "ArrayBuffer n = replicate n 0"

text \<open>
  \<^verbatim>\<open>DataView.setUint8/16/32(byteOffset, value)\<close>, big-endian. Every call of the source
  writes inside the buffer it has just allocated.
\<close>

definition setUint8 :: "bytes \<Rightarrow> nat \<Rightarrow> int \<Rightarrow> bytes" where
  "setUint8 buf off v = buf[off := (word_of_int v :: byte)]"

definition setUint16 :: "bytes \<Rightarrow> nat \<Rightarrow> int \<Rightarrow> bytes" where
  "setUint16 buf off v =
     (let w = (word_of_int v :: 16 word)
      in buf[off := ucast (drop_bit 8 w), off + 1 := ucast w])"

definition setUint32 :: "bytes \<Rightarrow> nat \<Rightarrow> int \<Rightarrow> bytes" where
  "setUint32 buf off v =
     (let w = (word_of_int v :: 32 word)
      in buf[off := ucast (drop_bit 24 w), off + 1 := ucast (drop_bit 16 w),
             off + 2 := ucast (drop_bit 8 w), off + 3 := ucast w])"

text \<open>\<^verbatim>\<open>Uint8Array.set(array, offset)\<close> for a source that fits.\<close>

fun set_bytes :: "bytes \<Rightarrow> byte list \<Rightarrow> nat \<Rightarrow> bytes" where
  "set_bytes buf [] off = buf"
| "set_bytes buf (x # xs) off = set_bytes (buf[off := x]) xs (Suc off)"

text \<open>
  \<^verbatim>\<open>joinBuffers(...buffers)\<close>: a buffer of the total length, each argument copied at the
  running offset.
\<close>

fun joinBuffers_copy :: "bytes \<Rightarrow> nat \<Rightarrow> bytes list \<Rightarrow> bytes" where
  "joinBuffers_copy out8 offset [] = out8"
| "joinBuffers_copy out8 offset (b # bs) =
     joinBuffers_copy (set_bytes out8 b offset) (offset + length b) bs"

definition joinBuffers :: "bytes list \<Rightarrow> bytes" where
  "joinBuffers buffers =
     (let l = foldl (\<lambda>a b. a + length b) 0 buffers
      in joinBuffers_copy (ArrayBuffer l) 0 buffers)"

section \<open>Checksum\<close>

text \<open>
  The table loop: \<^verbatim>\<open>tmp = tmp & 1 ? 3988292384 ^ tmp >>> 1 : tmp >>> 1\<close>, eight times,
  for each index; the entries are stored in a \<^verbatim>\<open>Uint32Array\<close>.
\<close>

definition crc_shift :: "32 word \<Rightarrow> 32 word" where
  "crc_shift tmp = (if tmp AND 1 \<noteq> 0 then 3988292384 XOR drop_bit 1 tmp else drop_bit 1 tmp)"

definition table_entry :: "nat \<Rightarrow> 32 word" where
  "table_entry i = (crc_shift ^^ 8) (of_nat i)"

definition crc_table :: "32 word list" where
  "crc_table = map table_entry [0..<256]"

text \<open>\<^verbatim>\<open>crc = crc >>> 8 ^ table[crc & 255 ^ data[i]]\<close>\<close>

definition crc_update :: "32 word \<Rightarrow> byte \<Rightarrow> 32 word" where
  "crc_update crc d = drop_bit 8 crc XOR crc_table ! unat ((crc AND 255) XOR ucast d)"

definition crc32 :: "bytes \<Rightarrow> 32 word" where
  "crc32 ab = foldl crc_update (- 1) ab XOR (- 1)"

section \<open>Chunk builder\<close>

text \<open>
  \<^verbatim>\<open>type.charCodeAt(i)\<close> is \<^verbatim>\<open>NaN\<close> past the end of the string, which \<^verbatim>\<open>setUint8\<close>
  stores as 0.
\<close>

definition charCodeAt :: "string \<Rightarrow> nat \<Rightarrow> int" where
  "charCodeAt s i = (if i < length s then of_char (s ! i) else 0)"

definition buildChunk :: "string \<Rightarrow> bytes \<Rightarrow> bytes" where
  "buildChunk type data =
     (let length4 = setUint32 (ArrayBuffer 4) 0 (int (length data));
          t = setUint8 (setUint8 (setUint8 (setUint8 (ArrayBuffer 4)
                0 (charCodeAt type 0)) 1 (charCodeAt type 1))
                2 (charCodeAt type 2)) 3 (charCodeAt type 3);
          crc = setUint32 (ArrayBuffer 4) 0 (uint (crc32 (joinBuffers [t, data])))
      in joinBuffers [length4, t, data, crc])"

section \<open>Payload extractor\<close>

text \<open>
  \<^verbatim>\<open>new Uint8Array(ab, byteOffset, length)\<close> throws a \<^verbatim>\<open>RangeError\<close> when the view does
  not fit in the buffer; \<^verbatim>\<open>DataView.getUint32(byteOffset)\<close> likewise.
\<close>

definition Uint8Array_view :: "bytes \<Rightarrow> nat \<Rightarrow> nat \<Rightarrow> error + bytes" where
  "Uint8Array_view ab byteOffset len =
     (if length ab < byteOffset + len then Inl RangeError
      else Inr (take len (drop byteOffset ab)))"

definition be_value :: "bytes \<Rightarrow> nat" where
  "be_value bs = foldl (\<lambda>a b. a * 256 + unat b) 0 bs"

definition getUint32 :: "bytes \<Rightarrow> int \<Rightarrow> error + nat" where
  "getUint32 view byteOffset =
     (if byteOffset < 0 \<or> int (length view) < byteOffset + 4 then Inl RangeError
      else Inr (be_value (take 4 (drop (nat byteOffset) view))))"

text \<open>\<^verbatim>\<open>String.fromCharCode(...chunktype)\<close>\<close>

definition fromCharCode :: "bytes \<Rightarrow> string" where
  "fromCharCode bs = map (\<lambda>b. char_of (unat b)) bs"

text \<open>
  The \<^verbatim>\<open>while(!end)\<close> loop of \<^verbatim>\<open>lookForIDAT\<close>. The \<^verbatim>\<open>default\<close> branch throws the
  offending chunk type (the value of the comma expression).
\<close>

function lookForIDAT_loop :: "bytes \<Rightarrow> nat \<Rightarrow> bytes list \<Rightarrow> error + bytes list" where
  "lookForIDAT_loop ab offset IDATs =
     (case Uint8Array_view ab offset 4 of
        Inl e \<Rightarrow> Inl e
      | Inr chunktype8 \<Rightarrow>
          let chunktype = fromCharCode chunktype8 in
          if chunktype = ''IDAT'' then
            (case getUint32 ab (int offset - 4) of
               Inl e \<Rightarrow> Inl e
             | Inr l \<Rightarrow>
                 (case Uint8Array_view ab (offset + 4) l of
                    Inl e \<Rightarrow> Inl e
                  | Inr idat_buf \<Rightarrow> lookForIDAT_loop ab (offset + (l + 12)) (IDATs @ [idat_buf])))
          else if chunktype = ''IEND'' then Inr IDATs
          else Inl (UnexpectedChunk chunktype))"
  by pat_completeness auto
termination
  by (relation "measure (\<lambda>(ab, offset, IDATs). length ab - offset)")
     (auto simp: Uint8Array_view_def split: if_splits)

definition lookForIDAT :: "bytes \<Rightarrow> error + bytes list" where
  "lookForIDAT ab = lookForIDAT_loop ab 37 []"

section \<open>JavaScript values\<close>

text \<open>
  The Number values: \<^verbatim>\<open>NaN\<close>, the two infinities, and the finite numbers by their exact
  value (so that \<^verbatim>\<open>-0\<close> is \<open>Finite 0\<close>).
\<close>

datatype number = NaN | Infinity | MinusInfinity | Finite rat

text \<open>
  The values that the optional arguments \<^verbatim>\<open>FPS\<close> and \<^verbatim>\<open>numplays\<close> can hold: \<^verbatim>\<open>undefined\<close>
  (the argument is omitted), \<^verbatim>\<open>null\<close>, a boolean, the empty string, a number, and
  \<open>Other n\<close> for any other value that \<^verbatim>\<open>ToNumber\<close> converts to \<open>n\<close>: a non-empty string
  (by the numeric literal in it) or an object (by its \<^verbatim>\<open>valueOf\<close>, taken to answer the
  same at every call); all of these are truthy. Symbols and BigInts, on which the
  conversion throws, are left out.
\<close>

datatype jsval = Undefined | Null | Boolean bool | EmptyString | Number number | Other number

text \<open>\<^verbatim>\<open>ToBoolean\<close>, and \<^verbatim>\<open>v || d\<close>: \<open>v\<close> when it is truthy, \<open>d\<close> otherwise.\<close>

fun ToBoolean :: "jsval \<Rightarrow> bool" where
  "ToBoolean Undefined = False"
| "ToBoolean Null = False"
| "ToBoolean (Boolean b) = b"
| "ToBoolean EmptyString = False"
| "ToBoolean (Number NaN) = False"
| "ToBoolean (Number Infinity) = True"
| "ToBoolean (Number MinusInfinity) = True"
| "ToBoolean (Number (Finite q)) = (q \<noteq> 0)"
| "ToBoolean (Other n) = True"

definition js_or :: "jsval \<Rightarrow> jsval \<Rightarrow> jsval" where
  "js_or v d = (if ToBoolean v then v else d)"

text \<open>
  What \<^verbatim>\<open>setUint16\<close> and \<^verbatim>\<open>setUint32\<close> do with their value argument before they reduce it
  modulo the width of the field: \<^verbatim>\<open>ToNumber\<close>, then 0 for \<^verbatim>\<open>NaN\<close> and the infinities,
  and truncation toward zero for a finite number.
\<close>

fun ToNumber :: "jsval \<Rightarrow> number" where
  "ToNumber Undefined = NaN"
| "ToNumber Null = Finite 0"
| "ToNumber (Boolean b) = Finite (if b then 1 else 0)"
| "ToNumber EmptyString = Finite 0"
| "ToNumber (Number n) = n"
| "ToNumber (Other n) = n"

fun truncate_number :: "number \<Rightarrow> int" where
  "truncate_number NaN = 0"
| "truncate_number Infinity = 0"
| "truncate_number MinusInfinity = 0"
| "truncate_number (Finite q) = (if 0 \<le> q then \<lfloor>q\<rfloor> else - \<lfloor>- q\<rfloor>)"

definition js_to_integer :: "jsval \<Rightarrow> int" where
  "js_to_integer v = truncate_number (ToNumber v)"

section \<open>Animation assembler\<close>

text \<open>
  The fields of the \<^verbatim>\<open>APNGmaker\<close> object. \<open>images\<close> holds, per frame, the list of
  data blocks that \<^verbatim>\<open>lookForIDAT\<close> returned; \<open>frames\<close> the frame segments built so far.
\<close>

record APNGmaker =
  width :: int
  height :: int
  FPS :: jsval
  numplays :: jsval
  signature :: bytes
  IHDR :: bytes
  iEND :: bytes
  frames :: "bytes list"
  images :: "bytes list list"

record Blob =
  blob_bytes :: bytes
  blob_type :: string

text \<open>The 26-byte \<^verbatim>\<open>fcTL\<close> buffer and its seven writes.\<close>

definition fcTL_buffer :: "APNGmaker \<Rightarrow> int \<Rightarrow> bytes" where
  "fcTL_buffer this seq =
     setUint8 (setUint8 (setUint16 (setUint16 (setUint32 (setUint32 (setUint32
       (ArrayBuffer 26) 0 seq) 4 (width this)) 8 (height this)) 20 1) 22 (js_to_integer (FPS this))) 24 0) 25 0"

text \<open>The two inner \<^verbatim>\<open>for\<close> loops over the blocks of one frame.\<close>

fun IDATchunks_loop :: "bytes list \<Rightarrow> bytes list \<Rightarrow> bytes list" where
  "IDATchunks_loop [] IDATchunks = IDATchunks"
| "IDATchunks_loop (d # data) IDATchunks =
     IDATchunks_loop data (IDATchunks @ [buildChunk ''IDAT'' d])"

fun fdATChunks_loop :: "bytes list \<Rightarrow> int \<Rightarrow> bytes list \<Rightarrow> int \<times> bytes list" where
  "fdATChunks_loop [] seq fdATChunks = (seq, fdATChunks)"
| "fdATChunks_loop (d # data) seq fdATChunks =
     (let sequence_number = setUint32 (ArrayBuffer 4) 0 seq;
          fdAT = joinBuffers [sequence_number, d]
      in fdATChunks_loop data (seq + 1) (fdATChunks @ [buildChunk ''fdAT'' fdAT]))"

text \<open>
  The body of \<^verbatim>\<open>this.images.forEach((data,i) => ...)\<close>: the state is the counter
  \<open>seq\<close> and \<open>this.frames\<close>.
\<close>

definition build_frame :: "APNGmaker \<Rightarrow> int \<times> bytes list \<Rightarrow> bytes list \<Rightarrow> nat \<Rightarrow> int \<times> bytes list" where
  "build_frame this st data i =
     (case st of (seq0, frames0) \<Rightarrow>
        let fcTL = fcTL_buffer this seq0;
            seq = seq0 + 1
        in if i = 0 then
             (let IDATchunks = IDATchunks_loop data []
              in (seq, frames0 @ [joinBuffers (buildChunk ''fcTL'' fcTL # IDATchunks)]))
           else
             (case fdATChunks_loop data seq [] of (seq', fdATChunks) \<Rightarrow>
                (seq', frames0 @ [joinBuffers (buildChunk ''fcTL'' fcTL # fdATChunks)])))"

fun forEach_frame :: "APNGmaker \<Rightarrow> nat \<Rightarrow> bytes list list \<Rightarrow> int \<times> bytes list \<Rightarrow> int \<times> bytes list" where
  "forEach_frame this i [] st = st"
| "forEach_frame this i (data # rest) st =
     forEach_frame this (Suc i) rest (build_frame this st data i)"

definition build :: "APNGmaker \<Rightarrow> Blob" where
  "build this =
     (let acTLdata = setUint32 (setUint32 (ArrayBuffer 8) 0 (int (length (images this))))
                       4 (js_to_integer (numplays this));
          acTL = buildChunk ''acTL'' acTLdata;
          frames' = snd (forEach_frame this 0 (images this) (0, frames this))
      in \<lparr>blob_bytes = concat ([signature this, IHDR this, acTL] @ frames' @ [iEND this]),
          blob_type = ''image/apng''\<rparr>)"

section \<open>Constructor\<close>

text \<open>
  A canvas: its size, and the bytes that the platform encoder (\<^verbatim>\<open>toBlob\<close> with type
  \<^verbatim>\<open>image/png\<close>, then \<^verbatim>\<open>arrayBuffer\<close>) returns for it.
\<close>

record canvas =
  canvas_width :: int
  canvas_height :: int
  toBlob :: bytes

text \<open>
  \<^verbatim>\<open>add(i, can)\<close> for every \<open>i\<close>, joined by \<^verbatim>\<open>Promise.all\<close>: the build goes on only when
  every extraction has succeeded. The tasks are modelled as completing in index order, so
  that \<^verbatim>\<open>this.images[i] = IDATes\<close> appends. When several frames fail, \<^verbatim>\<open>Promise.all\<close>
  rejects with the failure that happens first in time, which depends on the encoder; the
  model returns the failure of the lowest index.
\<close>

fun add_all :: "APNGmaker \<Rightarrow> canvas list \<Rightarrow> error + APNGmaker" where
  "add_all this [] = Inr this"
| "add_all this (can # cans) =
     (case lookForIDAT (toBlob can) of
        Inl e \<Rightarrow> Inl e
      | Inr IDATes \<Rightarrow> add_all (this\<lparr>images := images this @ [IDATes]\<rparr>) cans)"

text \<open>
  The synchronous part of the constructor, for a first image \<open>image0\<close>: the fields of
  \<open>this\<close> before any frame is added, with \<^verbatim>\<open>this.FPS=FPS||30\<close> and
  \<^verbatim>\<open>this.numplays=numplays||0\<close>.
\<close>

definition constructor_fields :: "canvas \<Rightarrow> jsval \<Rightarrow> jsval \<Rightarrow> APNGmaker" where
  "constructor_fields image0 FPS_arg numplays_arg =
     (let w = canvas_width image0;
          h = canvas_height image0;
          IHDRdata = set_bytes (setUint32 (setUint32 (ArrayBuffer 13) 0 w) 4 h) [8, 6, 0, 0, 0] 8
      in \<lparr>width = w, height = h,
          FPS = js_or FPS_arg (Number (Finite 30)),
          numplays = js_or numplays_arg (Number (Finite 0)),
          signature = set_bytes (ArrayBuffer 8)
            [0x89, 0x50, 0x4e, 0x47, 0x0d, 0x0a, 0x1a, 0x0a] 0,
          IHDR = buildChunk ''IHDR'' IHDRdata,
          iEND = set_bytes (ArrayBuffer 12)
            [0x00, 0x00, 0x00, 0x00, 0x49, 0x45, 0x4E, 0x44, 0xAE, 0x42, 0x60, 0x82] 0,
          frames = [],
          images = []\<rparr>)"

text \<open>\<^verbatim>\<open>images[0].width\<close> throws a \<^verbatim>\<open>TypeError\<close> when the array is empty.\<close>

definition new_APNGmaker :: "canvas list \<Rightarrow> jsval \<Rightarrow> jsval \<Rightarrow> error + Blob" where
  "new_APNGmaker imgs FPS_arg numplays_arg =
     (case imgs of
        [] \<Rightarrow> Inl TypeError
      | image0 # _ \<Rightarrow>
          (case add_all (constructor_fields image0 FPS_arg numplays_arg) imgs of
             Inl e \<Rightarrow> Inl e
           | Inr this \<Rightarrow> Inr (build this)))"

section \<open>The container format, as a decoder reads it\<close>

text \<open>
  Big-endian fields, and the bytes of a type tag. A chunk is
  \<open>length (4 bytes, big-endian) | type tag (4 bytes) | payload | crc32 (4 bytes, big-endian)\<close>,
  the checksum covering tag and payload.
\<close>

definition be16 :: "16 word \<Rightarrow> bytes" where
  "be16 w = [ucast (drop_bit 8 w), ucast w]"

definition be32 :: "32 word \<Rightarrow> bytes" where
  "be32 w = [ucast (drop_bit 24 w), ucast (drop_bit 16 w), ucast (drop_bit 8 w), ucast w]"

definition type_bytes :: "string \<Rightarrow> bytes" where
  "type_bytes s = map (\<lambda>c. word_of_int (of_char c)) s"

text \<open>One chunk, decomposed into (length, tag, payload, crc).\<close>

definition read_chunk :: "bytes \<Rightarrow> (nat \<times> string \<times> bytes \<times> nat) option" where
  "read_chunk bs =
     (if length bs < 12 then None
      else let l = be_value (take 4 bs)
           in if length bs \<noteq> l + 12 then None
              else Some (l, fromCharCode (take 4 (drop 4 bs)), take l (drop 8 bs),
                         be_value (drop (l + 8) bs)))"

text \<open>
  A whole chunk stream, as the list of its (tag, payload) pairs; \<open>None\<close> when the bytes
  are not a sequence of complete chunks with correct checksums.
\<close>

function read_chunks :: "bytes \<Rightarrow> (string \<times> bytes) list option" where
  "read_chunks bs =
     (if bs = [] then Some []
      else if length bs < 12 then None
      else let l = be_value (take 4 bs)
           in if length bs < l + 12 then None
              else if be_value (take 4 (drop (l + 8) bs)) \<noteq> unat (crc32 (take (l + 4) (drop 4 bs)))
              then None
              else map_option (Cons (fromCharCode (take 4 (drop 4 bs)), take l (drop 8 bs)))
                     (read_chunks (drop (l + 12) bs)))"
  by pat_completeness auto
termination
  by (relation "measure length") auto

text \<open>The chunks of an output buffer: the PNG signature, then a chunk stream.\<close>

definition png_signature :: bytes where
  "png_signature = [0x89, 0x50, 0x4e, 0x47, 0x0d, 0x0a, 0x1a, 0x0a]"

definition blob_chunks :: "Blob \<Rightarrow> (string \<times> bytes) list option" where
  "blob_chunks blob =
     (if take 8 (blob_bytes blob) = png_signature then read_chunks (drop 8 (blob_bytes blob))
      else None)"

text \<open>
  The sequence numbers of a chunk list, in stream order: the first four payload bytes of
  every \<^verbatim>\<open>fcTL\<close> and \<^verbatim>\<open>fdAT\<close> chunk.
\<close>

definition sequence_numbers :: "(string \<times> bytes) list \<Rightarrow> nat list" where
  "sequence_numbers cs =
     map (\<lambda>c. be_value (take 4 (snd c))) (filter (\<lambda>c. fst c = ''fcTL'' \<or> fst c = ''fdAT'') cs)"

definition payloads_of :: "string \<Rightarrow> (string \<times> bytes) list \<Rightarrow> bytes list" where
  "payloads_of tag cs = map snd (filter (\<lambda>c. fst c = tag) cs)"

text \<open>
  The delay fraction of every \<^verbatim>\<open>fcTL\<close> chunk (numerator at byte 20, denominator at
  byte 22, two bytes each), and the two fields of an \<^verbatim>\<open>acTL\<close> payload.
\<close>

definition delay_fractions :: "(string \<times> bytes) list \<Rightarrow> (nat \<times> nat) list" where
  "delay_fractions cs =
     map (\<lambda>d. (be_value (take 2 (drop 20 d)), be_value (take 2 (drop 22 d))))
       (payloads_of ''fcTL'' cs)"

definition acTL_fields :: "bytes \<Rightarrow> nat \<times> nat" where
  "acTL_fields d = (be_value (take 4 d), be_value (take 4 (drop 4 d)))"

text \<open>The chunks of the result of a build; \<open>None\<close> when the build failed.\<close>

definition built_chunks :: "error + Blob \<Rightarrow> (string \<times> bytes) list option" where
  "built_chunks r = (case r of Inl e \<Rightarrow> None | Inr blob \<Rightarrow> blob_chunks blob)"

text \<open>A chunk whose tag has four characters and whose payload length fits the length field.\<close>

definition chunk_ok :: "string \<times> bytes \<Rightarrow> bool" where
  "chunk_ok c \<longleftrightarrow> length (fst c) = 4 \<and> length (snd c) < 2 ^ 32"

section \<open>CRC-32/ISO-HDLC\<close>

text \<open>
  CRC-32/ISO-HDLC bit by bit: the register starts with all ones; each byte is added into
  the low bits, then the register is shifted right eight times, the reflected polynomial
  \<open>0xEDB88320\<close> being added whenever the bit shifted out is 1; the result is inverted.
\<close>

definition crc_bit_step :: "32 word \<Rightarrow> 32 word" where
  "crc_bit_step r = (if bit r 0 then drop_bit 1 r XOR 0xEDB88320 else drop_bit 1 r)"

definition crc32_bitwise :: "bytes \<Rightarrow> 32 word" where
  "crc32_bitwise bs = NOT (foldl (\<lambda>r b. (crc_bit_step ^^ 8) (r XOR ucast b)) (- 1) bs)"

section \<open>The chunks of the frames\<close>

text \<open>
  The chunks of the frames, as the format describes them. Frame \<open>i\<close>, whose control
  chunk has sequence number \<open>seq\<close>: the control chunk, then the blocks, as \<^verbatim>\<open>IDAT\<close> for
  frame 0 and as \<^verbatim>\<open>fdAT\<close> with the next sequence numbers in front otherwise.
\<close>

definition fcTL_payload :: "APNGmaker \<Rightarrow> nat \<Rightarrow> bytes" where
  "fcTL_payload this seq =
     be32 (of_nat seq) @ be32 (word_of_int (width this)) @ be32 (word_of_int (height this))
     @ be32 0 @ be32 0 @ be16 1 @ be16 (word_of_int (js_to_integer (FPS this))) @ [0, 0]"

definition frame_chunks :: "APNGmaker \<Rightarrow> nat \<Rightarrow> nat \<Rightarrow> bytes list \<Rightarrow> (string \<times> bytes) list" where
  "frame_chunks this i seq blocks =
     (''fcTL'', fcTL_payload this seq) #
     (if i = 0 then map (\<lambda>b. (''IDAT'', b)) blocks
      else map (\<lambda>(n, b). (''fdAT'', be32 (of_nat n) @ b)) (enumerate (Suc seq) blocks))"

definition next_seq :: "nat \<Rightarrow> nat \<Rightarrow> bytes list \<Rightarrow> nat" where
  "next_seq i seq blocks = (if i = 0 then Suc seq else Suc seq + length blocks)"

fun frame_list :: "APNGmaker \<Rightarrow> nat \<Rightarrow> nat \<Rightarrow> bytes list list \<Rightarrow> (string \<times> bytes) list list" where
  "frame_list this i seq [] = []"
| "frame_list this i seq (blocks # rest) =
     frame_chunks this i seq blocks # frame_list this (Suc i) (next_seq i seq blocks) rest"

definition chunk_bytes :: "string \<times> bytes \<Rightarrow> bytes" where
  "chunk_bytes c = buildChunk (fst c) (snd c)"

definition segment_bytes :: "(string \<times> bytes) list \<Rightarrow> bytes" where
  "segment_bytes cs = concat (map chunk_bytes cs)"

section \<open>Input frames\<close>

text \<open>
  A still image as the extractor expects it: 33 bytes of signature and header chunk, the
  data chunks (each a block with the four bytes of its checksum), then whatever follows.
\<close>

definition IDAT_chunk :: "bytes \<times> bytes \<Rightarrow> bytes" where
  "IDAT_chunk dc = be32 (of_nat (length (fst dc))) @ type_bytes ''IDAT'' @ fst dc @ snd dc"

definition still_image :: "bytes \<Rightarrow> (bytes \<times> bytes) list \<Rightarrow> bytes \<Rightarrow> bytes" where
  "still_image header idats rest = header @ concat (map IDAT_chunk idats) @ rest"

definition block_ok :: "bytes \<times> bytes \<Rightarrow> bool" where
  "block_ok dc \<longleftrightarrow> length (fst dc) < 2 ^ 32 \<and> length (snd dc) = 4"

text \<open>
  The payload lists of the input frames, in frame order: what \<^verbatim>\<open>lookForIDAT\<close> returns for
  each (every extraction has succeeded when the build goes on).
\<close>

definition extracted :: "canvas list \<Rightarrow> bytes list list" where
  "extracted imgs =
     map (\<lambda>can. case lookForIDAT (toBlob can) of Inr IDATes \<Rightarrow> IDATes | Inl e \<Rightarrow> []) imgs"

text \<open>
  A one-pixel still image with the given data blocks, written with the chunk builder, and
  a canvas that encodes to it.
\<close>

definition example_png :: "bytes list \<Rightarrow> bytes" where
  "example_png blocks =
     png_signature @ buildChunk ''IHDR'' (be32 1 @ be32 1 @ [8, 6, 0, 0, 0])
     @ concat (map (buildChunk ''IDAT'') blocks) @ buildChunk ''IEND'' []"

definition example_canvas :: "bytes list \<Rightarrow> canvas" where
  "example_canvas blocks = \<lparr>canvas_width = 1, canvas_height = 1, toBlob = example_png blocks\<rparr>"

text \<open>A two-frame input: one block in the first frame, two in the second.\<close>

definition example_frames :: "canvas list" where
  "example_frames = [example_canvas [[1, 2, 3]], example_canvas [[4], [5, 6]]]"

section \<open>Buffers: basic facts\<close>

declare lookForIDAT_loop.simps [simp del]
declare read_chunks.simps [simp del]

lemma list_update_Cons_numeral: "(x # xs)[numeral n := y] = x # xs[pred_numeral n := y]"
  by (simp add: numeral_eq_Suc)

lemma set_bytes_eq:
  "off + length xs \<le> length buf \<Longrightarrow> set_bytes buf xs off = take off buf @ xs @ drop (off + length xs) buf"
proof (induction xs arbitrary: buf off)
  case Nil
  then show ?case by simp
next
  case (Cons x xs)
  have lt: "off < length buf" using Cons.prems by simp
  have "set_bytes (buf[off := x]) xs (Suc off)
        = take (Suc off) (buf[off := x]) @ xs @ drop (Suc off + length xs) (buf[off := x])"
    using Cons.prems by (intro Cons.IH) simp
  also have "take (Suc off) (buf[off := x]) = take off buf @ [x]"
    using lt by (simp add: take_Suc_conv_app_nth)
  also have "drop (Suc off + length xs) (buf[off := x]) = drop (off + length (x # xs)) buf"
    by simp
  finally show ?case by simp
qed

lemma joinBuffers_copy_eq:
  "offset + length (concat bs) \<le> length out8 \<Longrightarrow>
   joinBuffers_copy out8 offset bs = take offset out8 @ concat bs @ drop (offset + length (concat bs)) out8"
proof (induction bs arbitrary: out8 offset)
  case Nil
  then show ?case by simp
next
  case (Cons b bs)
  let ?o = "set_bytes out8 b offset"
  have sb: "?o = take offset out8 @ b @ drop (offset + length b) out8"
    using Cons.prems by (intro set_bytes_eq) simp
  have len: "length ?o = length out8" using Cons.prems by (simp add: sb)
  have "joinBuffers_copy ?o (offset + length b) bs
        = take (offset + length b) ?o @ concat bs @ drop (offset + length b + length (concat bs)) ?o"
    using Cons.prems len by (intro Cons.IH) simp
  also have "take (offset + length b) ?o = take offset out8 @ b"
    using Cons.prems by (simp add: sb)
  also have "drop (offset + length b + length (concat bs)) ?o = drop (offset + length (concat (b # bs))) out8"
    using Cons.prems by (simp add: sb ac_simps)
  finally show ?case by simp
qed

lemma foldl_length_concat: "foldl (\<lambda>a b. a + length b) n bs = n + length (concat bs)"
  by (induction bs arbitrary: n) simp_all

lemma joinBuffers_concat: "joinBuffers buffers = concat buffers"
  by (simp add: joinBuffers_def foldl_length_concat joinBuffers_copy_eq ArrayBuffer_def)

lemma ArrayBuffer_4: "ArrayBuffer 4 = [0, 0, 0, 0]"
  by (simp add: ArrayBuffer_def numeral_eq_Suc)

lemma setUint32_4: "setUint32 (ArrayBuffer 4) 0 v = be32 (word_of_int v)"
  by (simp add: ArrayBuffer_4 setUint32_def be32_def Let_def list_update_Cons_numeral)

lemma word_of_char: "(word_of_int (of_char a) :: byte) = of_nat (of_char a)"
  by (simp add: of_int_of_char of_nat_of_char)

lemma char_of_byte_of_char: "char_of (unat (word_of_int (of_char a) :: byte)) = a"
  by (simp add: word_of_char unat_of_nat)

lemma fromCharCode_type_bytes: "fromCharCode (type_bytes s) = s"
  by (induction s) (simp_all add: fromCharCode_def type_bytes_def char_of_byte_of_char)

lemma length_type_bytes: "length (type_bytes s) = length s"
  by (simp add: type_bytes_def)

lemma length_be32: "length (be32 w) = 4"
  by (simp add: be32_def)

lemma tag_buffer:
  assumes "length type = 4"
  shows "setUint8 (setUint8 (setUint8 (setUint8 (ArrayBuffer 4)
                0 (charCodeAt type 0)) 1 (charCodeAt type 1))
                2 (charCodeAt type 2)) 3 (charCodeAt type 3) = type_bytes type"
proof -
  from assms obtain a b c d where t: "type = [a, b, c, d]"
    by (auto simp: length_Suc_conv numeral_eq_Suc)
  show ?thesis
    by (simp add: t ArrayBuffer_4 setUint8_def charCodeAt_def type_bytes_def list_update_Cons_numeral)
qed

lemma buildChunk_eq:
  "length type = 4 \<Longrightarrow>
   buildChunk type data =
     be32 (of_nat (length data)) @ type_bytes type @ data @ be32 (crc32 (type_bytes type @ data))"
  unfolding buildChunk_def Let_def
  by (simp only: tag_buffer setUint32_4 joinBuffers_concat) simp


lemma be_value_be32: "be_value (be32 w) = unat w"
proof -
  define x where "x = unat w"
  have lt: "x < 2 ^ 32"
    unfolding x_def using unsigned_less [of w, where ?'a = nat] by simp
  have a: "unat (ucast (drop_bit 24 w) :: byte) = x div 2 ^ 24 mod 256"
    by (simp add: unsigned_ucast_eq unat_drop_bit_eq drop_bit_eq_div take_bit_eq_mod unat_div x_def)
  have b: "unat (ucast (drop_bit 16 w) :: byte) = x div 2 ^ 16 mod 256"
    by (simp add: unsigned_ucast_eq unat_drop_bit_eq drop_bit_eq_div take_bit_eq_mod unat_div x_def)
  have c: "unat (ucast (drop_bit 8 w) :: byte) = x div 2 ^ 8 mod 256"
    by (simp add: unsigned_ucast_eq unat_drop_bit_eq drop_bit_eq_div take_bit_eq_mod unat_div x_def)
  have d: "unat (ucast w :: byte) = x mod 256"
    by (simp add: unsigned_ucast_eq take_bit_eq_mod x_def)
  have e1: "x mod 65536 = 256 * (x div 256 mod 256) + x mod 256"
    using mod_mult2_eq [of x 256 256] by simp
  have e2: "x mod 16777216 = 65536 * (x div 65536 mod 256) + x mod 65536"
    using mod_mult2_eq [of x 65536 256] by simp
  have e3: "x mod 4294967296 = 16777216 * (x div 16777216 mod 256) + x mod 16777216"
    using mod_mult2_eq [of x 16777216 256] by simp
  have e4: "x mod 4294967296 = x"
    using lt by simp
  have "(((0 * 256 + x div 2 ^ 24 mod 256) * 256 + x div 2 ^ 16 mod 256) * 256
          + x div 2 ^ 8 mod 256) * 256 + x mod 256 = x"
    using e1 e2 e3 e4 by simp
  then show ?thesis
    unfolding be_value_def be32_def foldl.simps a b c d by (simp only: x_def)
qed

section \<open>Checksum and chunk facts\<close>


lemma crc_table_nth: "n < 256 \<Longrightarrow> crc_table ! n = table_entry n"
  by (simp add: crc_table_def)

lemma funpow_8: "(f ^^ 8) x = f (f (f (f (f (f (f (f x)))))))"
  by (simp add: numeral_eq_Suc)

lemma mask_24: "mask 24 = (0xFFFFFF :: 32 word)"
  by (simp add: mask_eq_exp_minus_1)

lemmas crc_eval = crc32_def crc_update_def crc_table_nth table_entry_def funpow_8 crc_shift_def mask_24

lemma crc32_IEND: "crc32 (type_bytes ''IEND'') = 0xAE426082"
  by (simp add: type_bytes_def crc_eval)

lemma read_chunk_buildChunk:
  assumes "length type = 4" and "length data < 2 ^ 32"
  shows "read_chunk (buildChunk type data)
         = Some (length data, type, data, unat (crc32 (type_bytes type @ data)))"
proof -
  have l: "be_value (be32 (of_nat (length data))) = length data"
    using assms(2) by (simp add: be_value_be32 unat_of_nat)
  show ?thesis
    using assms(1) l
    by (simp add: read_chunk_def buildChunk_eq length_be32 length_type_bytes
        fromCharCode_type_bytes be_value_be32 Let_def)
qed

lemma iEND_chunk: "buildChunk ''IEND'' [] = [0x00, 0x00, 0x00, 0x00, 0x49, 0x45, 0x4E, 0x44, 0xAE, 0x42, 0x60, 0x82]"
  by (simp add: buildChunk_eq crc32_IEND) (simp add: be32_def type_bytes_def)

section \<open>Extractor facts\<close>


lemma Uint8Array_view_at:
  "length a = off \<Longrightarrow> length b = n \<Longrightarrow> Uint8Array_view (a @ b @ c) off n = Inr b"
  by (simp add: Uint8Array_view_def)

lemma getUint32_at:
  "length a = off \<Longrightarrow> getUint32 (a @ be32 w @ c) (int off) = Inr (unat w)"
  by (simp add: getUint32_def length_be32 be_value_be32)

lemma length_IDAT_chunk: "block_ok dc \<Longrightarrow> length (IDAT_chunk dc) = length (fst dc) + 12"
  by (simp add: IDAT_chunk_def block_ok_def length_be32 length_type_bytes)

lemma lookForIDAT_loop_IDAT:
  assumes ok: "block_ok dc"
  shows "lookForIDAT_loop (pre @ IDAT_chunk dc @ rest) (length pre + 4) acc
         = lookForIDAT_loop (pre @ IDAT_chunk dc @ rest) (length (pre @ IDAT_chunk dc) + 4) (acc @ [fst dc])"
proof -
  obtain d crc where dc: "dc = (d, crc)" by (cases dc)
  have len: "length d < 2 ^ 32" and crc: "length crc = 4"
    using ok by (simp_all add: dc block_ok_def)
  define w :: "32 word" where "w = of_nat (length d)"
  have uw: "unat w = length d" using len by (simp add: w_def unat_of_nat)
  let ?ab = "pre @ IDAT_chunk dc @ rest"
  have ab1: "?ab = (pre @ be32 w) @ type_bytes ''IDAT'' @ (d @ crc @ rest)"
    by (simp add: IDAT_chunk_def dc w_def)
  have ab2: "?ab = pre @ be32 w @ (type_bytes ''IDAT'' @ d @ crc @ rest)"
    by (simp add: IDAT_chunk_def dc w_def)
  have ab3: "?ab = (pre @ be32 w @ type_bytes ''IDAT'') @ d @ (crc @ rest)"
    by (simp add: IDAT_chunk_def dc w_def)
  have v1: "Uint8Array_view ?ab (length pre + 4) 4 = Inr (type_bytes ''IDAT'')"
    unfolding ab1 by (rule Uint8Array_view_at) (simp_all add: length_be32 length_type_bytes)
  have v2: "getUint32 ?ab (int (length pre + 4) - 4) = Inr (length d)"
    using getUint32_at [of pre "length pre" w "type_bytes ''IDAT'' @ d @ crc @ rest"]
    by (simp add: ab2 uw)
  have v3: "Uint8Array_view ?ab (length pre + 4 + 4) (length d) = Inr d"
    unfolding ab3 by (rule Uint8Array_view_at) (simp_all add: length_be32 length_type_bytes)
  have off: "length pre + 4 + (length d + 12) = length (pre @ IDAT_chunk dc) + 4"
    using ok by (simp add: length_IDAT_chunk dc)
  have fd: "fst dc = d" by (simp add: dc)
  show ?thesis
    by (subst lookForIDAT_loop.simps)
       (simp only: v1 v2 v3 sum.case Let_def fromCharCode_type_bytes simp_thms if_True off fd)
qed

lemma lookForIDAT_loop_IDATs:
  assumes "\<forall>dc \<in> set idats. block_ok dc"
  shows "lookForIDAT_loop (pre @ concat (map IDAT_chunk idats) @ rest) (length pre + 4) acc
         = lookForIDAT_loop (pre @ concat (map IDAT_chunk idats) @ rest)
             (length (pre @ concat (map IDAT_chunk idats)) + 4) (acc @ map fst idats)"
  using assms
proof (induction idats arbitrary: pre acc)
  case Nil
  then show ?case by simp
next
  case (Cons dc idats)
  have ok: "block_ok dc" and oks: "\<forall>dc \<in> set idats. block_ok dc"
    using Cons.prems by simp_all
  let ?rest = "concat (map IDAT_chunk idats) @ rest"
  have "lookForIDAT_loop (pre @ IDAT_chunk dc @ ?rest) (length pre + 4) acc
        = lookForIDAT_loop (pre @ IDAT_chunk dc @ ?rest) (length (pre @ IDAT_chunk dc) + 4) (acc @ [fst dc])"
    by (rule lookForIDAT_loop_IDAT [OF ok])
  also have "\<dots> = lookForIDAT_loop ((pre @ IDAT_chunk dc) @ concat (map IDAT_chunk idats) @ rest)
        (length ((pre @ IDAT_chunk dc) @ concat (map IDAT_chunk idats)) + 4) ((acc @ [fst dc]) @ map fst idats)"
    using Cons.IH [OF oks, of "pre @ IDAT_chunk dc" "acc @ [fst dc]"] by simp
  finally show ?case by simp
qed

lemma lookForIDAT_loop_other:
  assumes "length len4 = 4" and "length tag = 4"
  shows "lookForIDAT_loop (pre @ len4 @ type_bytes tag @ rest) (length pre + 4) acc
         = (if tag = ''IDAT'' then lookForIDAT_loop (pre @ len4 @ type_bytes tag @ rest) (length pre + 4) acc
            else if tag = ''IEND'' then Inr acc else Inl (UnexpectedChunk tag))"
proof -
  have ab: "pre @ len4 @ type_bytes tag @ rest = (pre @ len4) @ type_bytes tag @ rest" by simp
  have v1: "Uint8Array_view (pre @ len4 @ type_bytes tag @ rest) (length pre + 4) 4 = Inr (type_bytes tag)"
    unfolding ab using assms by (intro Uint8Array_view_at) (simp_all add: length_type_bytes)
  show ?thesis
    by (cases "tag = ''IDAT''")
       (simp, subst lookForIDAT_loop.simps, simp add: v1 fromCharCode_type_bytes)
qed

lemma lookForIDAT_still_image:
  assumes "length header = 33" and "\<forall>dc \<in> set idats. block_ok dc"
    and "length len4 = 4" and "length tag = 4" and "tag \<noteq> ''IDAT''"
  shows "lookForIDAT (still_image header idats (len4 @ type_bytes tag @ rest))
         = (if tag = ''IEND'' then Inr (map fst idats) else Inl (UnexpectedChunk tag))"
proof -
  let ?rest = "len4 @ type_bytes tag @ rest"
  have "lookForIDAT (still_image header idats ?rest)
        = lookForIDAT_loop (header @ concat (map IDAT_chunk idats) @ ?rest) (length header + 4) []"
    using assms(1) by (simp add: lookForIDAT_def still_image_def)
  also have "\<dots> = lookForIDAT_loop (header @ concat (map IDAT_chunk idats) @ ?rest)
        (length (header @ concat (map IDAT_chunk idats)) + 4) ([] @ map fst idats)"
    by (rule lookForIDAT_loop_IDATs [OF assms(2)])
  also have "\<dots> = lookForIDAT_loop ((header @ concat (map IDAT_chunk idats)) @ len4 @ type_bytes tag @ rest)
        (length (header @ concat (map IDAT_chunk idats)) + 4) (map fst idats)"
    by simp
  also have "\<dots> = (if tag = ''IEND'' then Inr (map fst idats) else Inl (UnexpectedChunk tag))"
    using assms(5) by (subst lookForIDAT_loop_other [OF assms(3,4)]) simp
  finally show ?thesis .
qed

section \<open>Assembler facts\<close>


lemma IDATchunks_loop_eq: "IDATchunks_loop data acc = acc @ map (buildChunk ''IDAT'') data"
  by (induction data arbitrary: acc) simp_all

lemma fdATChunks_loop_eq:
  "fdATChunks_loop data (int n) acc
   = (int (n + length data),
      acc @ map (\<lambda>(k, b). buildChunk ''fdAT'' (be32 (of_nat k) @ b)) (enumerate n data))"
proof (induction data arbitrary: n acc)
  case Nil
  then show ?case by simp
next
  case (Cons d data)
  have step: "fdATChunks_loop (d # data) (int n) acc
        = fdATChunks_loop data (int (Suc n)) (acc @ [buildChunk ''fdAT'' (be32 (of_nat n) @ d)])"
    by (simp add: setUint32_4 joinBuffers_concat Let_def add.commute)
  show ?case
    unfolding step Cons.IH by simp
qed

lemma ArrayBuffer_26:
  "ArrayBuffer 26 = [0, 0, 0, 0, 0, 0, 0, 0, 0, 0, 0, 0, 0, 0, 0, 0, 0, 0, 0, 0, 0, 0, 0, 0, 0, 0]"
  by (simp add: ArrayBuffer_def numeral_eq_Suc)

lemma be32_0: "be32 0 = [0, 0, 0, 0]"
  by (simp add: be32_def)

lemma fcTL_buffer_eq: "fcTL_buffer this (int n) = fcTL_payload this n"
  by (simp add: fcTL_buffer_def fcTL_payload_def ArrayBuffer_26 setUint32_def setUint16_def
      setUint8_def Let_def list_update_Cons_numeral be32_def be16_def)

lemma build_frame_eq:
  "build_frame this (int seq, fr) blocks i
   = (int (next_seq i seq blocks), fr @ [segment_bytes (frame_chunks this i seq blocks)])"
proof (cases "i = 0")
  case True
  then show ?thesis
    by (simp add: build_frame_def fcTL_buffer_eq IDATchunks_loop_eq joinBuffers_concat
        next_seq_def segment_bytes_def frame_chunks_def chunk_bytes_def comp_def Let_def)
next
  case False
  have s: "int seq + 1 = int (Suc seq)" by simp
  show ?thesis
    using False
    by (simp add: build_frame_def fcTL_buffer_eq s fdATChunks_loop_eq joinBuffers_concat
        next_seq_def segment_bytes_def frame_chunks_def chunk_bytes_def comp_def Let_def
        case_prod_unfold del: of_nat_Suc)
qed

lemma forEach_frame_eq:
  "snd (forEach_frame this i pl (int seq, fr)) = fr @ map segment_bytes (frame_list this i seq pl)"
  by (induction pl arbitrary: i seq fr) (simp_all add: build_frame_eq)

lemma ArrayBuffer_8: "ArrayBuffer 8 = [0, 0, 0, 0, 0, 0, 0, 0]"
  by (simp add: ArrayBuffer_def numeral_eq_Suc)

lemma acTL_buffer_eq:
  "setUint32 (setUint32 (ArrayBuffer 8) 0 n) 4 p = be32 (word_of_int n) @ be32 (word_of_int p)"
  by (simp add: ArrayBuffer_8 setUint32_def Let_def list_update_Cons_numeral be32_def)

lemma build_bytes:
  "frames this = [] \<Longrightarrow>
   blob_bytes (build this)
   = signature this @ IHDR this
     @ buildChunk ''acTL'' (be32 (of_nat (length (images this))) @ be32 (word_of_int (js_to_integer (numplays this))))
     @ concat (map segment_bytes (frame_list this 0 0 (images this))) @ iEND this"
  using forEach_frame_eq [of this 0 "images this" 0 "[]"]
  by (simp add: build_def acTL_buffer_eq Let_def)

lemma ArrayBuffer_13: "ArrayBuffer 13 = [0, 0, 0, 0, 0, 0, 0, 0, 0, 0, 0, 0, 0]"
  by (simp add: ArrayBuffer_def numeral_eq_Suc)

lemma ArrayBuffer_12: "ArrayBuffer 12 = [0, 0, 0, 0, 0, 0, 0, 0, 0, 0, 0, 0]"
  by (simp add: ArrayBuffer_def numeral_eq_Suc)

lemma IHDR_buffer_eq:
  "set_bytes (setUint32 (setUint32 (ArrayBuffer 13) 0 w) 4 h) [8, 6, 0, 0, 0] 8
   = be32 (word_of_int w) @ be32 (word_of_int h) @ [8, 6, 0, 0, 0]"
  by (simp add: ArrayBuffer_13 setUint32_def Let_def list_update_Cons_numeral be32_def set_bytes_eq)

lemma constructor_fields_simps:
  "width (constructor_fields c F N) = canvas_width c"
  "height (constructor_fields c F N) = canvas_height c"
  "FPS (constructor_fields c F N) = js_or F (Number (Finite 30))"
  "numplays (constructor_fields c F N) = js_or N (Number (Finite 0))"
  "signature (constructor_fields c F N) = png_signature"
  "IHDR (constructor_fields c F N)
   = buildChunk ''IHDR'' (be32 (word_of_int (canvas_width c)) @ be32 (word_of_int (canvas_height c)) @ [8, 6, 0, 0, 0])"
  "iEND (constructor_fields c F N) = buildChunk ''IEND'' []"
  "frames (constructor_fields c F N) = []"
  "images (constructor_fields c F N) = []"
  unfolding constructor_fields_def Let_def IHDR_buffer_eq iEND_chunk
  by (simp_all add: png_signature_def ArrayBuffer_8 ArrayBuffer_12 set_bytes_eq)

section \<open>Decoder facts\<close>


lemma read_chunks_Nil: "read_chunks [] = Some []"
  by (subst read_chunks.simps) simp

lemma read_chunks_buildChunk:
  assumes "length type = 4" and "length data < 2 ^ 32"
  shows "read_chunks (buildChunk type data @ rest) = map_option (Cons (type, data)) (read_chunks rest)"
proof -
  define w :: "32 word" where "w = of_nat (length data)"
  define c where "c = crc32 (type_bytes type @ data)"
  have uw: "unat w = length data" using assms(2) by (simp add: w_def unat_of_nat)
  let ?bs = "be32 w @ type_bytes type @ data @ be32 c @ rest"
  have bs: "buildChunk type data @ rest = ?bs"
    by (simp add: buildChunk_eq [OF assms(1)] w_def c_def)
  have l: "be_value (take 4 ?bs) = length data"
    by (simp add: length_be32 be_value_be32 uw)
  have t: "take 4 (drop 4 ?bs) = type_bytes type"
    using assms(1) by (simp add: length_be32 length_type_bytes)
  have d: "take (length data) (drop 8 ?bs) = data"
    using assms(1) by (simp add: length_be32 length_type_bytes)
  have td: "take (length data + 4) (drop 4 ?bs) = type_bytes type @ data"
    using assms(1) by (simp add: length_be32 length_type_bytes)
  have cr: "be_value (take 4 (drop (length data + 8) ?bs)) = unat c"
    using assms(1) by (simp add: length_be32 length_type_bytes be_value_be32)
  have r: "drop (length data + 12) ?bs = rest"
    using assms(1) by (simp add: length_be32 length_type_bytes)
  have ne: "?bs \<noteq> []" by (simp add: be32_def)
  have len: "\<not> length ?bs < 12" "\<not> length ?bs < length data + 12"
    using assms(1) by (simp_all add: length_be32 length_type_bytes)
  show ?thesis
    unfolding bs
    by (subst read_chunks.simps)
       (simp only: ne len l t d td cr r Let_def if_False fromCharCode_type_bytes simp_thms,
        simp add: c_def)
qed

lemma read_chunks_segment:
  "\<forall>c \<in> set cs. chunk_ok c \<Longrightarrow>
   read_chunks (segment_bytes cs @ rest) = map_option ((@) cs) (read_chunks rest)"
proof (induction cs)
  case Nil
  then show ?case by (simp add: segment_bytes_def option.map_ident)
next
  case (Cons c cs)
  have ok: "length (fst c) = 4" "length (snd c) < 2 ^ 32"
    using Cons.prems by (simp_all add: chunk_ok_def)
  have "read_chunks (segment_bytes (c # cs) @ rest)
        = read_chunks (buildChunk (fst c) (snd c) @ (segment_bytes cs @ rest))"
    by (simp add: segment_bytes_def chunk_bytes_def)
  also have "\<dots> = map_option (Cons (fst c, snd c)) (read_chunks (segment_bytes cs @ rest))"
    by (rule read_chunks_buildChunk [OF ok])
  also have "\<dots> = map_option ((@) (c # cs)) (read_chunks rest)"
    using Cons by (cases "read_chunks rest") simp_all
  finally show ?case .
qed

lemma read_chunks_segments:
  "\<forall>cs \<in> set css. \<forall>c \<in> set cs. chunk_ok c \<Longrightarrow>
   read_chunks (concat (map segment_bytes css) @ rest) = map_option ((@) (concat css)) (read_chunks rest)"
proof (induction css)
  case Nil
  then show ?case by (simp add: option.map_ident)
next
  case (Cons cs css)
  have "read_chunks (concat (map segment_bytes (cs # css)) @ rest)
        = read_chunks (segment_bytes cs @ (concat (map segment_bytes css) @ rest))"
    by simp
  also have "\<dots> = map_option ((@) cs) (read_chunks (concat (map segment_bytes css) @ rest))"
    using Cons.prems by (intro read_chunks_segment) simp
  also have "\<dots> = map_option ((@) (concat (cs # css))) (read_chunks rest)"
    using Cons by (cases "read_chunks rest") simp_all
  finally show ?case .
qed

section \<open>Constructor facts\<close>


lemma lookForIDAT_loop_blocks:
  "lookForIDAT_loop ab offset acc = Inr r \<Longrightarrow>
   \<forall>b \<in> set acc. length b + 4 \<le> length ab \<Longrightarrow> \<forall>b \<in> set r. length b + 4 \<le> length ab"
proof (induction ab offset acc rule: lookForIDAT_loop.induct)
  case (1 ab offset IDATs)
  from "1.prems"(1) show ?case
  proof (subst (asm) lookForIDAT_loop.simps, goal_cases)
    case a: 1
    show ?case
    proof (cases "Uint8Array_view ab offset 4")
      case (Inl e)
      with a show ?thesis by simp
    next
      case v1: (Inr chunktype8)
      show ?thesis
      proof (cases "fromCharCode chunktype8 = ''IDAT''")
        case False
        with a v1 "1.prems"(2) show ?thesis
          by (simp add: Let_def split: if_splits)
      next
        case idat: True
        show ?thesis
        proof (cases "getUint32 ab (int offset - 4)")
          case (Inl e)
          with a v1 idat show ?thesis by simp
        next
          case v2: (Inr l)
          show ?thesis
          proof (cases "Uint8Array_view ab (offset + 4) l")
            case (Inl e)
            with a v1 idat v2 show ?thesis by simp
          next
            case v3: (Inr idat_buf)
            have len: "length idat_buf + 4 \<le> length ab"
              using v3 by (auto simp: Uint8Array_view_def split: if_splits)
            have rec: "lookForIDAT_loop ab (offset + (l + 12)) (IDATs @ [idat_buf]) = Inr r"
              using a v1 idat v2 v3 by simp
            show ?thesis
              using "1.IH" [OF v1 refl idat v2 v3 rec] "1.prems"(2) len by simp
          qed
        qed
      qed
    qed
  qed
qed

lemma lookForIDAT_blocks:
  "lookForIDAT ab = Inr r \<Longrightarrow> b \<in> set r \<Longrightarrow> length b + 4 \<le> length ab"
  using lookForIDAT_loop_blocks [of ab 37 "[]" r] by (simp add: lookForIDAT_def)

lemma add_all_fails:
  "can \<in> set cans \<Longrightarrow> lookForIDAT (toBlob can) = Inl e \<Longrightarrow> \<exists>e'. add_all this cans = Inl e'"
  by (induction cans arbitrary: this) (auto split: sum.splits)

lemma add_all_Inr:
  "add_all this cans = Inr this' \<Longrightarrow>
   (\<forall>can \<in> set cans. \<exists>p. lookForIDAT (toBlob can) = Inr p)
   \<and> this' = this\<lparr>images := images this @ extracted cans\<rparr>"
proof (induction cans arbitrary: this)
  case Nil
  then show ?case by (simp add: extracted_def)
next
  case (Cons can cans)
  from Cons.prems obtain p where p: "lookForIDAT (toBlob can) = Inr p"
    and rest: "add_all (this\<lparr>images := images this @ [p]\<rparr>) cans = Inr this'"
    by (auto split: sum.splits)
  from Cons.IH [OF rest] p show ?case
    by (simp add: extracted_def)
qed

lemma add_all_succeeds:
  "\<forall>can \<in> set cans. \<exists>p. lookForIDAT (toBlob can) = Inr p \<Longrightarrow>
   add_all this cans = Inr (this\<lparr>images := images this @ extracted cans\<rparr>)"
proof (induction cans arbitrary: this)
  case Nil
  then show ?case by (simp add: extracted_def)
next
  case (Cons can cans)
  from Cons.prems obtain p where p: "lookForIDAT (toBlob can) = Inr p" by auto
  have "add_all (this\<lparr>images := images this @ [p]\<rparr>) cans
        = Inr (this\<lparr>images := images this @ [p]\<rparr>\<lparr>images := images (this\<lparr>images := images this @ [p]\<rparr>) @ extracted cans\<rparr>)"
    using Cons.prems by (intro Cons.IH) simp
  then show ?case
    using p by (simp add: extracted_def)
qed

lemma new_APNGmaker_Inr:
  assumes "new_APNGmaker imgs F N = Inr blob"
  shows "imgs \<noteq> []"
    and "\<forall>can \<in> set imgs. \<exists>p. lookForIDAT (toBlob can) = Inr p"
    and "blob = build ((constructor_fields (hd imgs) F N)\<lparr>images := extracted imgs\<rparr>)"
proof -
  from assms obtain c cs where imgs: "imgs = c # cs"
    by (cases imgs) (simp_all add: new_APNGmaker_def)
  from assms obtain this' where a: "add_all (constructor_fields c F N) imgs = Inr this'"
    and b: "blob = build this'"
    by (auto simp: new_APNGmaker_def imgs split: sum.splits)
  show "imgs \<noteq> []" by (simp add: imgs)
  show "\<forall>can \<in> set imgs. \<exists>p. lookForIDAT (toBlob can) = Inr p"
    using add_all_Inr [OF a] by simp
  show "blob = build ((constructor_fields (hd imgs) F N)\<lparr>images := extracted imgs\<rparr>)"
    using add_all_Inr [OF a] b by (simp add: imgs constructor_fields_simps)
qed

lemma new_APNGmaker_succeeds:
  assumes "imgs \<noteq> []" and "\<forall>can \<in> set imgs. \<exists>p. lookForIDAT (toBlob can) = Inr p"
  shows "new_APNGmaker imgs F N
         = Inr (build ((constructor_fields (hd imgs) F N)\<lparr>images := extracted imgs\<rparr>))"
proof -
  from assms(1) obtain c cs where imgs: "imgs = c # cs" by (cases imgs) simp_all
  show ?thesis
    using add_all_succeeds [OF assms(2), of "constructor_fields c F N"]
    by (simp add: new_APNGmaker_def imgs constructor_fields_simps)
qed

section \<open>The chunk stream of a build\<close>


lemma length_be16: "length (be16 w) = 2"
  by (simp add: be16_def)

lemma length_fcTL_payload: "length (fcTL_payload this seq) = 26"
  by (simp add: fcTL_payload_def length_be32 length_be16)

lemma enumerate_snd_mem: "p \<in> set (enumerate k xs) \<Longrightarrow> snd p \<in> set xs"
  by (cases p) (auto simp: enumerate_eq_zip dest: set_zip_rightD)

lemma frame_chunks_ok:
  assumes "\<forall>b \<in> set blocks. length b + 4 < 2 ^ 32"
  shows "\<forall>c \<in> set (frame_chunks this i seq blocks). chunk_ok c"
proof
  fix c assume "c \<in> set (frame_chunks this i seq blocks)"
  then consider "c = (''fcTL'', fcTL_payload this seq)"
    | b where "b \<in> set blocks" "c = (''IDAT'', b)"
    | p where "p \<in> set (enumerate (Suc seq) blocks)" "c = (''fdAT'', be32 (of_nat (fst p)) @ snd p)"
    by (auto simp: frame_chunks_def split: if_splits)
  then show "chunk_ok c"
  proof cases
    case 1
    then show ?thesis by (simp add: chunk_ok_def length_fcTL_payload)
  next
    case 2
    with assms have "length b + 4 < 2 ^ 32" by blast
    with 2 show ?thesis by (simp add: chunk_ok_def)
  next
    case 3
    with assms have "length (snd p) + 4 < 2 ^ 32"
      using enumerate_snd_mem [of p "Suc seq" blocks] by blast
    with 3 show ?thesis by (simp add: chunk_ok_def length_be32 add.commute)
  qed
qed

lemma frame_list_ok:
  "\<forall>blocks \<in> set pl. \<forall>b \<in> set blocks. length b + 4 < 2 ^ 32 \<Longrightarrow>
   \<forall>cs \<in> set (frame_list this i seq pl). \<forall>c \<in> set cs. chunk_ok c"
proof (induction pl arbitrary: i seq)
  case Nil
  then show ?case by simp
next
  case (Cons blocks pl)
  have a: "\<forall>c \<in> set (frame_chunks this i seq blocks). chunk_ok c"
    using Cons.prems by (intro frame_chunks_ok) simp
  have b: "\<forall>cs \<in> set (frame_list this (Suc i) (next_seq i seq blocks) pl). \<forall>c \<in> set cs. chunk_ok c"
    using Cons.prems by (intro Cons.IH) simp
  show ?case using a b by simp
qed

lemma frame_list_images_update:
  "frame_list (this\<lparr>images := pl'\<rparr>) i seq pl = frame_list this i seq pl"
  by (induction pl arbitrary: i seq) (simp_all add: frame_chunks_def fcTL_payload_def)

lemma build_chunks:
  assumes "frames this = []" and "signature this = png_signature"
    and "IHDR this = buildChunk ''IHDR'' ih" and "length ih < 2 ^ 32"
    and "iEND this = buildChunk ''IEND'' []"
    and "\<forall>blocks \<in> set (images this). \<forall>b \<in> set blocks. length b + 4 < 2 ^ 32"
  shows "blob_chunks (build this)
         = Some ((''IHDR'', ih)
             # (''acTL'', be32 (of_nat (length (images this))) @ be32 (word_of_int (js_to_integer (numplays this))))
             # concat (frame_list this 0 0 (images this)) @ [(''IEND'', [])])"
proof -
  let ?actl = "be32 (of_nat (length (images this))) @ be32 (word_of_int (js_to_integer (numplays this)))"
  let ?fl = "frame_list this 0 0 (images this)"
  have bytes: "blob_bytes (build this)
      = png_signature @ buildChunk ''IHDR'' ih @ buildChunk ''acTL'' ?actl
        @ concat (map segment_bytes ?fl) @ buildChunk ''IEND'' []"
    using build_bytes [OF assms(1)] by (simp add: assms(2,3,5))
  have sig: "take 8 (blob_bytes (build this)) = png_signature"
    by (simp add: bytes) (simp add: png_signature_def)
  have rest: "drop 8 (blob_bytes (build this))
      = buildChunk ''IHDR'' ih @ buildChunk ''acTL'' ?actl
        @ concat (map segment_bytes ?fl) @ buildChunk ''IEND'' []"
    by (simp add: bytes) (simp add: png_signature_def)
  have e: "read_chunks (buildChunk ''IEND'' []) = Some [(''IEND'', [])]"
    using read_chunks_buildChunk [of "''IEND''" "[]" "[]"] by (simp add: read_chunks_Nil)
  have f: "read_chunks (concat (map segment_bytes ?fl) @ buildChunk ''IEND'' [])
      = Some (concat ?fl @ [(''IEND'', [])])"
    using read_chunks_segments [OF frame_list_ok [OF assms(6)], of this 0 0 "buildChunk ''IEND'' []"]
    by (simp add: e)
  have a: "read_chunks (buildChunk ''acTL'' ?actl @ concat (map segment_bytes ?fl) @ buildChunk ''IEND'' [])
      = Some ((''acTL'', ?actl) # concat ?fl @ [(''IEND'', [])])"
    by (subst read_chunks_buildChunk) (simp_all add: length_be32 f)
  have h: "read_chunks (buildChunk ''IHDR'' ih @ buildChunk ''acTL'' ?actl
        @ concat (map segment_bytes ?fl) @ buildChunk ''IEND'' [])
      = Some ((''IHDR'', ih) # (''acTL'', ?actl) # concat ?fl @ [(''IEND'', [])])"
    using assms(4) by (subst read_chunks_buildChunk) (simp_all add: a)
  show ?thesis
    by (simp add: blob_chunks_def sig rest h)
qed

lemma stream_chunks:
  assumes "new_APNGmaker imgs F N = Inr blob"
    and "\<forall>can \<in> set imgs. length (toBlob can) < 2 ^ 32"
  shows "blob_chunks blob
         = Some ((''IHDR'', be32 (word_of_int (canvas_width (hd imgs)))
                            @ be32 (word_of_int (canvas_height (hd imgs))) @ [8, 6, 0, 0, 0])
             # (''acTL'', be32 (of_nat (length imgs)) @ be32 (word_of_int (js_to_integer (js_or N (Number (Finite 0))))))
             # concat (frame_list (constructor_fields (hd imgs) F N) 0 0 (extracted imgs))
             @ [(''IEND'', [])])"
proof -
  let ?obj = "(constructor_fields (hd imgs) F N)\<lparr>images := extracted imgs\<rparr>"
  note ok = new_APNGmaker_Inr [OF assms(1)]
  have sizes: "\<forall>blocks \<in> set (images ?obj). \<forall>b \<in> set blocks. length b + 4 < 2 ^ 32"
  proof (intro ballI)
    fix blocks b assume bl: "blocks \<in> set (images ?obj)" and b: "b \<in> set blocks"
    from bl obtain can where can: "can \<in> set imgs"
      and blocks: "blocks = (case lookForIDAT (toBlob can) of Inr IDATes \<Rightarrow> IDATes | Inl e \<Rightarrow> [])"
      by (auto simp: extracted_def)
    from ok(2) can obtain p where p: "lookForIDAT (toBlob can) = Inr p" by blast
    have "length b + 4 \<le> length (toBlob can)"
      using lookForIDAT_blocks [OF p, of b] b blocks p by simp
    with assms(2) can show "length b + 4 < 2 ^ 32" by fastforce
  qed
  have "blob_chunks (build ?obj)
      = Some ((''IHDR'', be32 (word_of_int (canvas_width (hd imgs)))
                            @ be32 (word_of_int (canvas_height (hd imgs))) @ [8, 6, 0, 0, 0])
             # (''acTL'', be32 (of_nat (length (images ?obj))) @ be32 (word_of_int (js_to_integer (numplays ?obj))))
             # concat (frame_list ?obj 0 0 (images ?obj)) @ [(''IEND'', [])])"
    by (rule build_chunks [OF _ _ _ _ _ sizes])
       (simp_all add: constructor_fields_simps length_be32)
  then show ?thesis
    by (simp add: ok(3) frame_list_images_update constructor_fields_simps extracted_def)
qed

section \<open>Sequence numbers, payloads and delays of the frame chunks\<close>


lemma be_value_be16: "be_value (be16 w) = unat w"
proof -
  define x where "x = unat w"
  have lt: "x < 2 ^ 16"
    unfolding x_def using unsigned_less [of w, where ?'a = nat] by simp
  have a: "unat (ucast (drop_bit 8 w) :: byte) = x div 2 ^ 8 mod 256"
    by (simp add: unsigned_ucast_eq unat_drop_bit_eq drop_bit_eq_div take_bit_eq_mod unat_div x_def)
  have b: "unat (ucast w :: byte) = x mod 256"
    by (simp add: unsigned_ucast_eq take_bit_eq_mod x_def)
  have e1: "x mod 65536 = 256 * (x div 256 mod 256) + x mod 256"
    using mod_mult2_eq [of x 256 256] by simp
  have e2: "x mod 65536 = x"
    using lt by simp
  have "(0 * 256 + x div 2 ^ 8 mod 256) * 256 + x mod 256 = x"
    using e1 e2 by simp
  then show ?thesis
    unfolding be_value_def be16_def foldl.simps a b by (simp only: x_def)
qed

lemma sequence_numbers_append:
  "sequence_numbers (a @ b) = sequence_numbers a @ sequence_numbers b"
  by (simp add: sequence_numbers_def)

lemma payloads_of_append: "payloads_of tag (a @ b) = payloads_of tag a @ payloads_of tag b"
  by (simp add: payloads_of_def)

lemma delay_fractions_append: "delay_fractions (a @ b) = delay_fractions a @ delay_fractions b"
  by (simp add: delay_fractions_def payloads_of_append)

lemma seq_prefix: "n < 2 ^ 32 \<Longrightarrow> be_value (take 4 (be32 (of_nat n) @ b)) = n"
  by (simp add: length_be32 be_value_be32 unat_of_nat)

lemma fcTL_payload_seq: "seq < 2 ^ 32 \<Longrightarrow> be_value (take 4 (fcTL_payload this seq)) = seq"
  unfolding fcTL_payload_def by (rule seq_prefix)

lemma fcTL_payload_delay:
  "be_value (take 2 (drop 20 (fcTL_payload this seq))) = 1"
  "be_value (take 2 (drop 22 (fcTL_payload this seq))) = unat (word_of_int (js_to_integer (FPS this)) :: 16 word)"
  by (simp_all add: fcTL_payload_def length_be32 length_be16 be_value_be16)

lemma fdAT_chunks_seq:
  "k + length blocks \<le> 2 ^ 32 \<Longrightarrow>
   map (\<lambda>c. be_value (take 4 (snd c)))
     (map (\<lambda>(n, b). (''fdAT'', be32 (of_nat n) @ b)) (enumerate k blocks))
   = [k..<k + length blocks]"
proof (induction blocks arbitrary: k)
  case Nil
  then show ?case by simp
next
  case (Cons b blocks)
  have k: "k < 2 ^ 32" using Cons.prems by simp
  have "map (\<lambda>c. be_value (take 4 (snd c)))
     (map (\<lambda>(n, b). (''fdAT'', be32 (of_nat n) @ b)) (enumerate (Suc k) blocks))
   = [Suc k..<Suc k + length blocks]"
    using Cons.prems by (intro Cons.IH) simp
  moreover have "[k..<k + length (b # blocks)] = k # [Suc k..<Suc k + length blocks]"
    by (simp add: upt_conv_Cons del: upt_Suc)
  ultimately show ?case
    using seq_prefix [OF k, of b] by (simp del: upt_Suc)
qed

lemma frame_chunks_first_seq:
  "seq < 2 ^ 32 \<Longrightarrow> sequence_numbers (frame_chunks this 0 seq blocks) = [seq]"
  by (simp add: frame_chunks_def sequence_numbers_def fcTL_payload_seq filter_map comp_def)

lemma frame_chunks_later_seq:
  assumes "0 < i" and "Suc seq + length blocks \<le> 2 ^ 32"
  shows "sequence_numbers (frame_chunks this i seq blocks) = [seq..<Suc seq + length blocks]"
proof -
  have f: "filter (\<lambda>c. fst c = ''fcTL'' \<or> fst c = ''fdAT'')
             (map (\<lambda>(n, b). (''fdAT'', be32 (of_nat n) @ b)) (enumerate (Suc seq) blocks))
           = map (\<lambda>(n, b). (''fdAT'', be32 (of_nat n) @ b)) (enumerate (Suc seq) blocks)"
    by (rule filter_True) auto
  have s: "seq < 2 ^ 32" using assms(2) by simp
  have u: "[seq..<Suc seq + length blocks] = seq # [Suc seq..<Suc seq + length blocks]"
    by (simp add: upt_conv_Cons del: upt_Suc)
  show ?thesis
    using assms(1) fdAT_chunks_seq [OF assms(2)] fcTL_payload_seq [OF s, of this]
    unfolding u by (simp add: frame_chunks_def sequence_numbers_def f del: upt_Suc)
qed

lemma frame_chunks_payloads:
  "payloads_of ''fcTL'' (frame_chunks this i seq blocks) = [fcTL_payload this seq]"
  "payloads_of ''IDAT'' (frame_chunks this i seq blocks) = (if i = 0 then blocks else [])"
  "payloads_of ''fdAT'' (frame_chunks this i seq blocks)
   = (if i = 0 then [] else map (\<lambda>(n, b). be32 (of_nat n) @ b) (enumerate (Suc seq) blocks))"
  by (auto simp: payloads_of_def frame_chunks_def filter_map comp_def case_prod_unfold)

lemma frame_list_later_seq:
  "0 < i \<Longrightarrow> seq + length pl + length (concat pl) \<le> 2 ^ 32 \<Longrightarrow>
   sequence_numbers (concat (frame_list this i seq pl)) = [seq..<seq + length pl + length (concat pl)]"
proof (induction pl arbitrary: i seq)
  case Nil
  then show ?case by (simp add: sequence_numbers_def)
next
  case (Cons blocks pl)
  have a: "sequence_numbers (frame_chunks this i seq blocks) = [seq..<Suc seq + length blocks]"
    using Cons.prems by (intro frame_chunks_later_seq) simp_all
  have n: "next_seq i seq blocks = Suc seq + length blocks"
    using Cons.prems(1) by (simp add: next_seq_def)
  have b: "sequence_numbers (concat (frame_list this (Suc i) (Suc seq + length blocks) pl))
           = [Suc seq + length blocks..<Suc seq + length blocks + length pl + length (concat pl)]"
    using Cons.prems by (intro Cons.IH) simp_all
  define m where "m = Suc seq + length blocks"
  define r where "r = length pl + length (concat pl)"
  have tot: "seq + length (blocks # pl) + length (concat (blocks # pl)) = m + r"
    by (simp add: m_def r_def)
  have b': "sequence_numbers (concat (frame_list this (Suc i) m pl)) = [m..<m + r]"
    using b by (simp add: m_def r_def add.assoc del: upt_Suc)
  have "seq \<le> m" by (simp add: m_def)
  then have j: "[seq..<m + r] = [seq..<m] @ [m..<m + r]"
    by (rule upt_add_eq_append)
  show ?case
    unfolding tot j
    using a b' n by (simp add: sequence_numbers_append m_def del: upt_Suc)
qed

lemma frame_list_fcTL_count:
  "length (payloads_of ''fcTL'' (concat (frame_list this i seq pl))) = length pl"
  by (induction pl arbitrary: i seq)
     (simp_all add: payloads_of_append frame_chunks_payloads, simp add: payloads_of_def)

lemma frame_list_later_fdAT_count:
  "0 < i \<Longrightarrow> length (payloads_of ''fdAT'' (concat (frame_list this i seq pl))) = length (concat pl)"
  by (induction pl arbitrary: i seq)
     (simp add: payloads_of_def, simp add: payloads_of_append frame_chunks_payloads)

lemma frame_list_later_IDAT:
  "0 < i \<Longrightarrow> payloads_of ''IDAT'' (concat (frame_list this i seq pl)) = []"
  by (induction pl arbitrary: i seq)
     (simp add: payloads_of_def, simp add: payloads_of_append frame_chunks_payloads)

lemma frame_list_delays:
  "delay_fractions (concat (frame_list this i seq pl))
   = replicate (length pl) (1, unat (word_of_int (js_to_integer (FPS this)) :: 16 word))"
proof (induction pl arbitrary: i seq)
  case Nil
  then show ?case by (simp add: delay_fractions_def payloads_of_def)
next
  case (Cons blocks pl)
  have "delay_fractions (frame_chunks this i seq blocks)
        = [(1, unat (word_of_int (js_to_integer (FPS this)) :: 16 word))]"
    by (simp add: delay_fractions_def frame_chunks_payloads fcTL_payload_delay)
  then show ?case
    by (simp add: delay_fractions_append Cons.IH)
qed

section \<open>Example frames\<close>

lemma buildChunk_IDAT: "buildChunk ''IDAT'' d = IDAT_chunk (d, be32 (crc32 (type_bytes ''IDAT'' @ d)))"
  by (simp add: buildChunk_eq IDAT_chunk_def)

lemma example_png_still_image:
  "example_png blocks
   = still_image (png_signature @ buildChunk ''IHDR'' (be32 1 @ be32 1 @ [8, 6, 0, 0, 0]))
       (map (\<lambda>d. (d, be32 (crc32 (type_bytes ''IDAT'' @ d)))) blocks)
       (be32 0 @ type_bytes ''IEND'' @ be32 (crc32 (type_bytes ''IEND'')))"
proof -
  have a: "buildChunk ''IEND'' [] = be32 0 @ type_bytes ''IEND'' @ be32 (crc32 (type_bytes ''IEND''))"
    by (simp add: buildChunk_eq)
  have b: "map (buildChunk ''IDAT'') blocks
           = map IDAT_chunk (map (\<lambda>d. (d, be32 (crc32 (type_bytes ''IDAT'' @ d)))) blocks)"
    by (simp add: buildChunk_IDAT)
  show ?thesis
    unfolding example_png_def still_image_def a b by simp
qed

lemma length_buildChunk: "length type = 4 \<Longrightarrow> length (buildChunk type data) = length data + 12"
  by (simp add: buildChunk_eq length_be32 length_type_bytes)

lemma lookForIDAT_example_png:
  assumes "\<forall>b \<in> set blocks. length b < 2 ^ 32"
  shows "lookForIDAT (example_png blocks) = Inr blocks"
proof -
  have "lookForIDAT (example_png blocks)
        = (if ''IEND'' = ''IEND''
           then Inr (map fst (map (\<lambda>d. (d, be32 (crc32 (type_bytes ''IDAT'' @ d)))) blocks))
           else Inl (UnexpectedChunk ''IEND''))"
    unfolding example_png_still_image
    using assms
    by (intro lookForIDAT_still_image)
       (auto simp: png_signature_def length_buildChunk length_be32 block_ok_def)
  then show ?thesis by (simp add: comp_def)
qed

text \<open>The header chunk of a one-pixel image, as every PNG encoder writes it.\<close>

lemma IHDR_chunk_one_pixel:
  "buildChunk ''IHDR'' (be32 1 @ be32 1 @ [8, 6, 0, 0, 0])
   = [0x00, 0x00, 0x00, 0x0D, 0x49, 0x48, 0x44, 0x52, 0x00, 0x00, 0x00, 0x01, 0x00, 0x00, 0x00, 0x01,
      0x08, 0x06, 0x00, 0x00, 0x00, 0x1F, 0x15, 0xC4, 0x89]"
  by (simp add: buildChunk_eq) (simp add: be32_def type_bytes_def crc_eval)

lemma length_example_png:
  "length (example_png blocks) = 45 + length (concat (map (buildChunk ''IDAT'') blocks))"
  by (simp add: example_png_def png_signature_def length_buildChunk length_be32)

section \<open>Other chunk types; example builds\<close>

lemma frame_list_other_tags:
  "tag \<noteq> ''fcTL'' \<Longrightarrow> tag \<noteq> ''IDAT'' \<Longrightarrow> tag \<noteq> ''fdAT'' \<Longrightarrow>
   payloads_of tag (concat (frame_list this i seq pl)) = []"
proof (induction pl arbitrary: i seq)
  case Nil
  then show ?case by (simp add: payloads_of_def)
next
  case (Cons blocks pl)
  have "payloads_of tag (frame_chunks this i seq blocks) = []"
    using Cons.prems
    by (auto simp: payloads_of_def frame_chunks_def filter_empty_conv)
  then show ?case
    using Cons by (simp add: payloads_of_append)
qed

lemma lookForIDAT_example_canvas:
  "\<forall>b \<in> set blocks. length b < 2 ^ 32 \<Longrightarrow> lookForIDAT (toBlob (example_canvas blocks)) = Inr blocks"
  by (simp add: example_canvas_def lookForIDAT_example_png)

lemma length_example_canvas:
  "length (toBlob (example_canvas blocks)) = 45 + length (concat (map (buildChunk ''IDAT'') blocks))"
  by (simp add: example_canvas_def length_example_png)

lemma new_APNGmaker_example_1:
  "new_APNGmaker [example_canvas [[1, 2, 3]]] F N
   = Inr (build ((constructor_fields (example_canvas [[1, 2, 3]]) F N)\<lparr>images := [[[1, 2, 3]]]\<rparr>))"
  using new_APNGmaker_succeeds [of "[example_canvas [[1, 2, 3]]]" F N]
  by (simp add: lookForIDAT_example_canvas extracted_def)

section \<open>Counting the chunks of a stream\<close>

lemma payloads_of_simps:
  "payloads_of t ((t, d) # cs) = d # payloads_of t cs"
  "t' \<noteq> t \<Longrightarrow> payloads_of t ((t', d) # cs) = payloads_of t cs"
  "payloads_of t [] = []"
  by (simp_all add: payloads_of_def)

lemma sequence_numbers_simps:
  "sequence_numbers [] = []"
  "t \<noteq> ''fcTL'' \<Longrightarrow> t \<noteq> ''fdAT'' \<Longrightarrow> sequence_numbers ((t, d) # cs) = sequence_numbers cs"
  by (simp_all add: sequence_numbers_def)

lemma frame_list_seq:
  assumes "length pl + length (concat (tl pl)) \<le> 2 ^ 32"
  shows "sequence_numbers (concat (frame_list this 0 0 pl))
         = [0..<length pl + length (concat (tl pl))]"
proof (cases pl)
  case Nil
  then show ?thesis by (simp add: sequence_numbers_def)
next
  case (Cons blocks rest)
  have a: "sequence_numbers (frame_chunks this 0 0 blocks) = [0]"
    by (rule frame_chunks_first_seq) simp
  have b: "sequence_numbers (concat (frame_list this (Suc 0) (Suc 0) rest))
           = [Suc 0..<Suc 0 + length rest + length (concat rest)]"
    using assms by (intro frame_list_later_seq) (simp_all add: Cons)
  have "[0..<length pl + length (concat (tl pl))]
        = 0 # [Suc 0..<Suc 0 + length rest + length (concat rest)]"
    by (simp add: Cons upt_conv_Cons del: upt_Suc)
  then show ?thesis
    using a b by (simp add: Cons sequence_numbers_append next_seq_def del: upt_Suc)
qed

lemma frame_list_fdAT_count:
  "length (payloads_of ''fdAT'' (concat (frame_list this 0 seq pl))) = length (concat (tl pl))"
  by (cases pl)
     (simp_all add: payloads_of_simps payloads_of_append frame_chunks_payloads
       frame_list_later_fdAT_count)

lemma frame_list_IDAT:
  "pl \<noteq> [] \<Longrightarrow> payloads_of ''IDAT'' (concat (frame_list this 0 seq pl)) = hd pl"
  by (cases pl)
     (simp_all add: payloads_of_append frame_chunks_payloads frame_list_later_IDAT)

section \<open>Example builds of one and two frames\<close>

lemma new_APNGmaker_example_frames:
  "new_APNGmaker example_frames F N
   = Inr (build ((constructor_fields (example_canvas [[1, 2, 3]]) F N)
                 \<lparr>images := [[[1, 2, 3]], [[4], [5, 6]]]\<rparr>))"
  using new_APNGmaker_succeeds [of example_frames F N]
  by (simp add: example_frames_def lookForIDAT_example_canvas extracted_def)

lemma extracted_example_frames: "extracted example_frames = [[[1, 2, 3]], [[4], [5, 6]]]"
  by (simp add: example_frames_def lookForIDAT_example_canvas extracted_def)

lemma extracted_example_1: "extracted [example_canvas [[1, 2, 3]]] = [[[1, 2, 3]]]"
  by (simp add: lookForIDAT_example_canvas extracted_def)

lemma example_frames_sizes: "\<forall>can \<in> set example_frames. length (toBlob can) < 2 ^ 32"
  by (simp add: example_frames_def length_example_canvas length_buildChunk)

section \<open>Fields of the control chunks\<close>

lemma unat_word_of_int_16: "unat (word_of_int k :: 16 word) = nat (k mod 65536)"
  by (simp add: unsigned_of_int take_bit_eq_mod)

lemma unat_word_of_int_32: "unat (word_of_int k :: 32 word) = nat (k mod 4294967296)"
  by (simp add: unsigned_of_int take_bit_eq_mod)

lemma acTL_fields_eq: "acTL_fields (be32 a @ be32 b) = (unat a, unat b)"
  by (simp add: acTL_fields_def length_be32 be_value_be32)

section \<open>Results of a build\<close>

lemma built_chunks_Inr: "built_chunks (Inr blob) = blob_chunks blob"
  by (simp add: built_chunks_def)

section \<open>The checksum, bit by bit\<close>

lemma crc_shift_bit: "crc_shift r = crc_bit_step r"
proof -
  have "(r AND 1 \<noteq> 0) = bit r 0"
    by (simp add: and_one_eq bit_0 mod_2_eq_odd)
  then show ?thesis
    by (simp add: crc_shift_def crc_bit_step_def xor.commute)
qed

lemma xor_cancel: "(x XOR p) XOR (y XOR p) = x XOR (y :: 32 word)"
  by (simp add: xor.assoc xor.left_commute [of p])

lemma crc_bit_step_xor: "crc_bit_step (a XOR b) = crc_bit_step a XOR crc_bit_step b"
proof (cases "bit a 0"; cases "bit b 0")
  assume "bit a 0" "bit b 0"
  then show ?thesis
    by (simp add: crc_bit_step_def bit_xor_iff xor_cancel)
next
  assume "bit a 0" "\<not> bit b 0"
  then show ?thesis
    by (simp add: crc_bit_step_def bit_xor_iff xor.assoc xor.commute [of "0xEDB88320"])
next
  assume "\<not> bit a 0" "bit b 0"
  then show ?thesis
    by (simp add: crc_bit_step_def bit_xor_iff xor.assoc)
next
  assume "\<not> bit a 0" "\<not> bit b 0"
  then show ?thesis
    by (simp add: crc_bit_step_def bit_xor_iff)
qed

lemma crc_bit_steps_xor:
  "(crc_bit_step ^^ k) (a XOR b) = (crc_bit_step ^^ k) a XOR (crc_bit_step ^^ k) b"
  by (induction k) (simp_all add: crc_bit_step_xor)

lemma crc_bit_steps_shift:
  "take_bit k r = 0 \<Longrightarrow> (crc_bit_step ^^ k) r = drop_bit k r"
proof (induction k arbitrary: r)
  case 0
  then show ?case by simp
next
  case (Suc k)
  from Suc.prems have b0: "\<not> bit r 0"
    by (metis bit_of_bool_iff bit_take_bit_iff of_bool_eq(1) zero_less_Suc)
  have t: "take_bit k (drop_bit 1 r) = 0"
    using Suc.prems by (simp add: take_bit_drop_bit)
  have "(crc_bit_step ^^ Suc k) r = (crc_bit_step ^^ k) (crc_bit_step r)"
    by (simp add: funpow_swap1)
  also have "\<dots> = (crc_bit_step ^^ k) (drop_bit 1 r)"
    using b0 by (simp add: crc_bit_step_def)
  also have "\<dots> = drop_bit k (drop_bit 1 r)"
    by (rule Suc.IH [OF t])
  finally show ?case by simp
qed

lemma and_255_take_bit: "c AND 255 = take_bit 8 (c :: 32 word)"
  by (simp add: take_bit_eq_mask mask_eq_exp_minus_1)

lemma take_bit_ucast_byte: "take_bit 8 (ucast (d :: byte) :: 32 word) = ucast d"
  by (rule bit_eqI) (auto simp: bit_simps dest: bit_imp_le_length)

lemma drop_bit_ucast_byte: "drop_bit 8 (ucast (d :: byte) :: 32 word) = 0"
  by (rule bit_eqI) (auto simp: bit_simps dest: bit_imp_le_length)

lemma unat_take_bit_8: "unat (take_bit 8 (x :: 32 word)) < 256"
  using take_bit_nat_less_exp [of 8 "unat x"] by (simp add: unsigned_take_bit_eq)

lemma drop_bit_take_bit_8: "drop_bit 8 (take_bit 8 (x :: 32 word)) = 0"
  by (simp add: drop_bit_take_bit)

lemma crc_update_bitwise: "crc_update c d = (crc_bit_step ^^ 8) (c XOR ucast d)"
proof -
  define x where "x = c XOR ucast d"
  define lo where "lo = take_bit 8 x"
  define hi where "hi = x XOR lo"
  have lo: "(c AND 255) XOR ucast d = lo"
    by (simp add: lo_def x_def and_255_take_bit take_bit_ucast_byte)
  have cs: "crc_shift = crc_bit_step"
    by (rule ext) (rule crc_shift_bit)
  have tab: "crc_table ! unat lo = (crc_bit_step ^^ 8) lo"
    using unat_take_bit_8 [of x] by (simp add: crc_table_nth table_entry_def lo_def cs)
  have x: "x = hi XOR lo"
    by (simp add: hi_def xor.assoc)
  have thi: "take_bit 8 hi = 0"
    by (simp add: hi_def lo_def)
  have dhi: "drop_bit 8 hi = drop_bit 8 c"
    by (simp add: hi_def lo_def x_def drop_bit_ucast_byte drop_bit_take_bit_8 drop_bit_take_bit)
  have "(crc_bit_step ^^ 8) x = (crc_bit_step ^^ 8) hi XOR (crc_bit_step ^^ 8) lo"
    by (subst x) (rule crc_bit_steps_xor)
  also have "(crc_bit_step ^^ 8) hi = drop_bit 8 c"
    using crc_bit_steps_shift [OF thi] dhi by simp
  finally show ?thesis
    by (simp add: crc_update_def lo tab x_def)
qed

lemma crc32_bitwise_eq: "crc32 bs = crc32_bitwise bs"
proof -
  have "crc_update = (\<lambda>r b. (crc_bit_step ^^ 8) (r XOR ucast b))"
    by (intro ext) (rule crc_update_bitwise)
  then show ?thesis
    by (simp add: crc32_def crc32_bitwise_def not_eq_complement)
qed

section \<open>Conversions of the optional arguments\<close>

lemma js_to_integer_simps:
  "js_to_integer Undefined = 0"
  "js_to_integer Null = 0"
  "js_to_integer (Boolean b) = (if b then 1 else 0)"
  "js_to_integer EmptyString = 0"
  "js_to_integer (Number n) = truncate_number n"
  "js_to_integer (Other n) = truncate_number n"
  by (simp_all add: js_to_integer_def)

lemma js_to_integer_of_int: "js_to_integer (Number (Finite (of_int k))) = k"
  by (simp add: js_to_integer_simps)

lemma js_or_simps:
  "js_or Undefined d = d"
  "js_or Null d = d"
  "js_or (Boolean b) d = (if b then Boolean True else d)"
  "js_or EmptyString d = d"
  "js_or (Number NaN) d = d"
  "js_or (Number Infinity) d = Number Infinity"
  "js_or (Number MinusInfinity) d = Number MinusInfinity"
  "js_or (Number (Finite q)) d = (if q = 0 then d else Number (Finite q))"
  "js_or (Other n) d = Other n"
  by (simp_all add: js_or_def)

section \<open>The claims\<close>

text \<open>
  C1: the bytes of every Blob that the constructor returns are the signature
  \<open>89 50 4E 47 0D 0A 1A 0A\<close>, the \<^verbatim>\<open>IHDR\<close> chunk (width and height of the first canvas,
  then 8, 6, 0, 0, 0), the \<^verbatim>\<open>acTL\<close> chunk (number of frames, number of plays), the
  segments of the frames in frame order, and the \<^verbatim>\<open>IEND\<close> chunk of the empty payload.
  When every frame buffer is shorter than \<open>2^32\<close> bytes, a decoder reads the stream as
  one \<^verbatim>\<open>IHDR\<close> chunk, then one \<^verbatim>\<open>acTL\<close> chunk, then the chunks of the frames,
  then one \<^verbatim>\<open>IEND\<close> chunk, and no other chunk has one of these three types.
\<close>

theorem build_layout:
  assumes "new_APNGmaker imgs F N = Inr blob"
  shows "blob_bytes blob
         = [0x89, 0x50, 0x4E, 0x47, 0x0D, 0x0A, 0x1A, 0x0A]
           @ buildChunk ''IHDR'' (be32 (word_of_int (canvas_width (hd imgs)))
                                  @ be32 (word_of_int (canvas_height (hd imgs))) @ [8, 6, 0, 0, 0])
           @ buildChunk ''acTL'' (be32 (of_nat (length imgs))
                                  @ be32 (word_of_int (js_to_integer (js_or N (Number (Finite 0))))))
           @ concat (map segment_bytes
               (frame_list (constructor_fields (hd imgs) F N) 0 0 (extracted imgs)))
           @ buildChunk ''IEND'' []
         \<and> ((\<forall>can \<in> set imgs. length (toBlob can) < 2 ^ 32) \<longrightarrow>
            (\<exists>ih ac fs. blob_chunks blob
                 = Some ((''IHDR'', ih) # (''acTL'', ac) # fs @ [(''IEND'', [])])
               \<and> payloads_of ''IHDR'' ((''IHDR'', ih) # (''acTL'', ac) # fs @ [(''IEND'', [])]) = [ih]
               \<and> payloads_of ''acTL'' ((''IHDR'', ih) # (''acTL'', ac) # fs @ [(''IEND'', [])]) = [ac]
               \<and> payloads_of ''IEND'' ((''IHDR'', ih) # (''acTL'', ac) # fs @ [(''IEND'', [])]) = [[]]
               \<and> length ih = 13))"
proof (intro conjI impI)
  let ?obj = "(constructor_fields (hd imgs) F N)\<lparr>images := extracted imgs\<rparr>"
  note ok = new_APNGmaker_Inr [OF assms]
  have "frames ?obj = []" by (simp add: constructor_fields_simps)
  from build_bytes [OF this]
  show "blob_bytes blob
         = [0x89, 0x50, 0x4E, 0x47, 0x0D, 0x0A, 0x1A, 0x0A]
           @ buildChunk ''IHDR'' (be32 (word_of_int (canvas_width (hd imgs)))
                                  @ be32 (word_of_int (canvas_height (hd imgs))) @ [8, 6, 0, 0, 0])
           @ buildChunk ''acTL'' (be32 (of_nat (length imgs))
                                  @ be32 (word_of_int (js_to_integer (js_or N (Number (Finite 0))))))
           @ concat (map segment_bytes
               (frame_list (constructor_fields (hd imgs) F N) 0 0 (extracted imgs)))
           @ buildChunk ''IEND'' []"
    by (simp add: ok(3) constructor_fields_simps frame_list_images_update extracted_def
        png_signature_def)
next
  assume sizes: "\<forall>can \<in> set imgs. length (toBlob can) < 2 ^ 32"
  let ?fs = "concat (frame_list (constructor_fields (hd imgs) F N) 0 0 (extracted imgs))"
  let ?ih = "be32 (word_of_int (canvas_width (hd imgs)))
             @ be32 (word_of_int (canvas_height (hd imgs))) @ [8, 6, 0, 0, 0]"
  let ?ac = "be32 (of_nat (length imgs))
             @ be32 (word_of_int (js_to_integer (js_or N (Number (Finite 0)))))"
  have cs: "blob_chunks blob = Some ((''IHDR'', ?ih) # (''acTL'', ?ac) # ?fs @ [(''IEND'', [])])"
    by (rule stream_chunks [OF assms sizes])
  have none: "payloads_of ''IHDR'' ?fs = []" "payloads_of ''acTL'' ?fs = []"
    "payloads_of ''IEND'' ?fs = []"
    by (simp_all add: frame_list_other_tags)
  have p: "\<And>t d cs. payloads_of t ((t, d) # cs) = d # payloads_of t cs"
    "\<And>t t' d cs. t' \<noteq> t \<Longrightarrow> payloads_of t ((t', d) # cs) = payloads_of t cs"
    "\<And>t. payloads_of t [] = []"
    by (simp_all add: payloads_of_def)
  have a: "payloads_of ''IHDR'' ((''IHDR'', ?ih) # (''acTL'', ?ac) # ?fs @ [(''IEND'', [])]) = [?ih]"
    by (simp add: p payloads_of_append none)
  have b: "payloads_of ''acTL'' ((''IHDR'', ?ih) # (''acTL'', ?ac) # ?fs @ [(''IEND'', [])]) = [?ac]"
    by (simp add: p payloads_of_append none)
  have c: "payloads_of ''IEND'' ((''IHDR'', ?ih) # (''acTL'', ?ac) # ?fs @ [(''IEND'', [])]) = [[]]"
    by (simp add: p payloads_of_append none)
  have d: "length ?ih = 13" by (simp add: length_be32)
  from cs a b c d
  show "\<exists>ih ac fs. blob_chunks blob
                 = Some ((''IHDR'', ih) # (''acTL'', ac) # fs @ [(''IEND'', [])])
               \<and> payloads_of ''IHDR'' ((''IHDR'', ih) # (''acTL'', ac) # fs @ [(''IEND'', [])]) = [ih]
               \<and> payloads_of ''acTL'' ((''IHDR'', ih) # (''acTL'', ac) # fs @ [(''IEND'', [])]) = [ac]
               \<and> payloads_of ''IEND'' ((''IHDR'', ih) # (''acTL'', ac) # fs @ [(''IEND'', [])]) = [[]]
               \<and> length ih = 13"
    by blast
qed

theorem build_layout_witness:
  "new_APNGmaker [example_canvas [[1, 2, 3]]] Undefined Undefined
   = Inr (build ((constructor_fields (example_canvas [[1, 2, 3]]) Undefined Undefined)
                 \<lparr>images := [[[1, 2, 3]]]\<rparr>))
   \<and> length (toBlob (example_canvas [[1, 2, 3]])) < 2 ^ 32
   \<and> take 8 (blob_bytes (build ((constructor_fields (example_canvas [[1, 2, 3]]) Undefined Undefined)
                 \<lparr>images := [[[1, 2, 3]]]\<rparr>))) = [0x89, 0x50, 0x4E, 0x47, 0x0D, 0x0A, 0x1A, 0x0A]
   \<and> (\<exists>ih ac fs. blob_chunks (build ((constructor_fields (example_canvas [[1, 2, 3]]) Undefined Undefined)
                 \<lparr>images := [[[1, 2, 3]]]\<rparr>))
         = Some ((''IHDR'', ih) # (''acTL'', ac) # fs @ [(''IEND'', [])]))"
proof -
  let ?blob = "build ((constructor_fields (example_canvas [[1, 2, 3]]) Undefined Undefined)
                 \<lparr>images := [[[1, 2, 3]]]\<rparr>)"
  have s: "new_APNGmaker [example_canvas [[1, 2, 3]]] Undefined Undefined = Inr ?blob"
    by (rule new_APNGmaker_example_1)
  have l: "length (toBlob (example_canvas [[1, 2, 3]])) < 2 ^ 32"
    by (simp add: length_example_canvas length_buildChunk)
  from build_layout [OF s] l
  have "take 8 (blob_bytes ?blob) = [0x89, 0x50, 0x4E, 0x47, 0x0D, 0x0A, 0x1A, 0x0A]"
    and "\<exists>ih ac fs. blob_chunks ?blob = Some ((''IHDR'', ih) # (''acTL'', ac) # fs @ [(''IEND'', [])])"
    by auto
  with s l show ?thesis by blast
qed

text \<open>
  C2: for a four-character type tag and a payload shorter than \<open>2^32\<close> bytes, the chunk
  is the big-endian payload length, the tag, the payload and the big-endian checksum of
  tag and payload, and it decomposes back into exactly these four parts.
\<close>

theorem buildChunk_roundtrip:
  assumes "length type = 4" and "length data < 2 ^ 32"
  shows "buildChunk type data
           = be32 (of_nat (length data)) @ type_bytes type @ data
             @ be32 (crc32 (type_bytes type @ data))
         \<and> read_chunk (buildChunk type data)
           = Some (length data, type, data, unat (crc32 (type_bytes type @ data)))"
  by (rule conjI [OF buildChunk_eq [OF assms(1)] read_chunk_buildChunk [OF assms]])

theorem buildChunk_roundtrip_witness:
  "length ''IEND'' = 4 \<and> length ([] :: bytes) < 2 ^ 32
   \<and> read_chunk (buildChunk ''IEND'' []) = Some (0, ''IEND'', [], 0xAE426082)"
  using buildChunk_roundtrip [of "''IEND''" "[]", THEN conjunct2]
  by (simp add: crc32_IEND)

text \<open>
  C3: the checksum is CRC-32/ISO-HDLC: the table-driven loop computes the same value as
  the bit-by-bit algorithm (reflected polynomial \<open>0xEDB88320\<close>, register initially all
  ones, result inverted); the check value of the ASCII bytes \<open>123456789\<close> is
  \<open>0xCBF43926\<close>, and the checksum of the empty buffer is 0.
\<close>

theorem crc32_check_values:
  "crc32 bs = crc32_bitwise bs
   \<and> crc32 (type_bytes ''123456789'') = 0xCBF43926 \<and> crc32 [] = 0"
proof (intro conjI)
  show "crc32 bs = crc32_bitwise bs"
    by (rule crc32_bitwise_eq)
  show "crc32 (type_bytes ''123456789'') = 0xCBF43926"
    by (simp add: type_bytes_def crc_eval)
  show "crc32 [] = 0"
    by (simp add: crc32_def)
qed

text \<open>
  C4: in the chunk stream of a build (every frame buffer shorter than \<open>2^32\<close> bytes, at
  most \<open>2^32\<close> numbered chunks), the sequence numbers of the \<^verbatim>\<open>fcTL\<close> and \<^verbatim>\<open>fdAT\<close>
  chunks, in stream order, are \<open>0, 1, 2, \<dots>\<close> without gap; there are as many as \<^verbatim>\<open>fcTL\<close>
  chunks (one per frame) plus \<^verbatim>\<open>fdAT\<close> chunks (one per block of the frames after the
  first); the \<^verbatim>\<open>IDAT\<close> payloads are the blocks of the first frame, with no number in front.
\<close>

theorem sequence_numbers_consecutive:
  assumes "new_APNGmaker imgs F N = Inr blob"
    and "\<forall>can \<in> set imgs. length (toBlob can) < 2 ^ 32"
    and "length imgs + length (concat (tl (extracted imgs))) \<le> 2 ^ 32"
  shows "\<exists>cs. blob_chunks blob = Some cs
           \<and> sequence_numbers cs
             = [0..<length (payloads_of ''fcTL'' cs) + length (payloads_of ''fdAT'' cs)]
           \<and> length (payloads_of ''fcTL'' cs) = length imgs
           \<and> length (payloads_of ''fdAT'' cs) = length (concat (tl (extracted imgs)))
           \<and> payloads_of ''IDAT'' cs = hd (extracted imgs)"
proof -
  let ?obj = "constructor_fields (hd imgs) F N"
  let ?pl = "extracted imgs"
  let ?fs = "concat (frame_list ?obj 0 0 ?pl)"
  let ?ih = "be32 (word_of_int (canvas_width (hd imgs)))
             @ be32 (word_of_int (canvas_height (hd imgs))) @ [8, 6, 0, 0, 0]"
  let ?ac = "be32 (of_nat (length imgs))
             @ be32 (word_of_int (js_to_integer (js_or N (Number (Finite 0)))))"
  let ?cs = "(''IHDR'', ?ih) # (''acTL'', ?ac) # ?fs @ [(''IEND'', [])]"
  have len: "length ?pl = length imgs" by (simp add: extracted_def)
  have ne: "?pl \<noteq> []"
    using new_APNGmaker_Inr(1) [OF assms(1)] by (simp add: extracted_def)
  have cs: "blob_chunks blob = Some ?cs"
    by (rule stream_chunks [OF assms(1,2)])
  have fc: "length (payloads_of ''fcTL'' ?cs) = length imgs"
    by (simp add: payloads_of_simps payloads_of_append frame_list_fcTL_count len)
  have fd: "length (payloads_of ''fdAT'' ?cs) = length (concat (tl ?pl))"
    by (simp add: payloads_of_simps payloads_of_append frame_list_fdAT_count)
  have idat: "payloads_of ''IDAT'' ?cs = hd ?pl"
    by (simp add: payloads_of_simps payloads_of_append frame_list_IDAT [OF ne])
  have "sequence_numbers ?cs = sequence_numbers ?fs"
    by (simp add: sequence_numbers_simps sequence_numbers_append)
  also have "\<dots> = [0..<length ?pl + length (concat (tl ?pl))]"
    using assms(3) by (intro frame_list_seq) (simp add: len)
  finally have sq: "sequence_numbers ?cs
      = [0..<length (payloads_of ''fcTL'' ?cs) + length (payloads_of ''fdAT'' ?cs)]"
    by (simp only: fc fd len)
  from cs sq fc fd idat show ?thesis by blast
qed

theorem sequence_numbers_consecutive_witness:
  "new_APNGmaker example_frames Undefined Undefined
   = Inr (build ((constructor_fields (example_canvas [[1, 2, 3]]) Undefined Undefined)
                 \<lparr>images := [[[1, 2, 3]], [[4], [5, 6]]]\<rparr>))
   \<and> length (toBlob (example_canvas [[1, 2, 3]])) < 2 ^ 32
   \<and> length (toBlob (example_canvas [[4], [5, 6]])) < 2 ^ 32
   \<and> length example_frames + length (concat (tl (extracted example_frames))) \<le> 2 ^ 32
   \<and> (\<exists>cs. blob_chunks (build ((constructor_fields (example_canvas [[1, 2, 3]]) Undefined Undefined)
                 \<lparr>images := [[[1, 2, 3]], [[4], [5, 6]]]\<rparr>)) = Some cs
         \<and> sequence_numbers cs = [0, 1, 2, 3]
         \<and> payloads_of ''IDAT'' cs = [[1, 2, 3]])"
proof -
  let ?blob = "build ((constructor_fields (example_canvas [[1, 2, 3]]) Undefined Undefined)
                 \<lparr>images := [[[1, 2, 3]], [[4], [5, 6]]]\<rparr>)"
  have s: "new_APNGmaker example_frames Undefined Undefined = Inr ?blob"
    by (rule new_APNGmaker_example_frames)
  have n: "length example_frames + length (concat (tl (extracted example_frames))) \<le> 2 ^ 32"
    by (simp add: extracted_example_frames) (simp add: example_frames_def)
  have u: "[0..<4] = [0, 1, 2, 3 :: nat]"
    by (simp add: upt_conv_Cons)
  from sequence_numbers_consecutive [OF s example_frames_sizes n]
  obtain cs where "blob_chunks ?blob = Some cs"
    and "sequence_numbers cs = [0..<length (payloads_of ''fcTL'' cs) + length (payloads_of ''fdAT'' cs)]"
    and "length (payloads_of ''fcTL'' cs) = length example_frames"
    and "length (payloads_of ''fdAT'' cs) = length (concat (tl (extracted example_frames)))"
    and "payloads_of ''IDAT'' cs = hd (extracted example_frames)"
    by blast
  then have "blob_chunks ?blob = Some cs \<and> sequence_numbers cs = [0, 1, 2, 3]
      \<and> payloads_of ''IDAT'' cs = [[1, 2, 3]]"
    by (simp add: extracted_example_frames u) (simp add: example_frames_def u)
  with s n example_frames_sizes show ?thesis
    by (auto simp: example_frames_def)
qed

text \<open>
  C5: the chunk stream of a one-frame build has one \<^verbatim>\<open>fcTL\<close> chunk, no \<^verbatim>\<open>fdAT\<close> chunk,
  and the blocks that the extractor returned for the frame as \<^verbatim>\<open>IDAT\<close> payloads: for an
  input frame of 33 header bytes, \<^verbatim>\<open>IDAT\<close> chunks and \<^verbatim>\<open>IEND\<close>, one \<^verbatim>\<open>IDAT\<close> chunk per
  \<^verbatim>\<open>IDAT\<close> chunk of the frame, with the same data (none when the frame has none). The
  chunk stream of a two-frame build is \<^verbatim>\<open>IHDR\<close>, \<^verbatim>\<open>acTL\<close>, the \<^verbatim>\<open>fcTL\<close> numbered 0, the
  blocks of frame 0 as \<^verbatim>\<open>IDAT\<close> payloads unchanged, the \<^verbatim>\<open>fcTL\<close> numbered 1, each block
  of frame 1 as an \<^verbatim>\<open>fdAT\<close> payload with the next number (2, 3, \<dots>) in four big-endian
  bytes in front, and \<^verbatim>\<open>IEND\<close>.
\<close>

theorem first_frame_IDAT_later_fdAT:
  assumes "new_APNGmaker imgs F N = Inr blob"
    and "\<forall>can \<in> set imgs. length (toBlob can) < 2 ^ 32"
  shows "\<exists>cs. blob_chunks blob = Some cs
         \<and> (length imgs = 1 \<longrightarrow>
              length (payloads_of ''fcTL'' cs) = 1
              \<and> payloads_of ''IDAT'' cs = extracted imgs ! 0
              \<and> payloads_of ''fdAT'' cs = []
              \<and> (\<forall>header idats len4 rest.
                    length header = 33 \<and> (\<forall>dc \<in> set idats. block_ok dc) \<and> length len4 = 4
                    \<and> toBlob (imgs ! 0)
                      = still_image header idats (len4 @ type_bytes ''IEND'' @ rest) \<longrightarrow>
                    payloads_of ''IDAT'' cs = map fst idats
                    \<and> length (payloads_of ''IDAT'' cs) = length idats))
         \<and> (length imgs = 2 \<longrightarrow>
              cs = [(''IHDR'', be32 (word_of_int (canvas_width (hd imgs)))
                               @ be32 (word_of_int (canvas_height (hd imgs))) @ [8, 6, 0, 0, 0]),
                    (''acTL'', be32 2 @ be32 (word_of_int (js_to_integer (js_or N (Number (Finite 0)))))),
                    (''fcTL'', fcTL_payload (constructor_fields (hd imgs) F N) 0)]
                   @ map (\<lambda>b. (''IDAT'', b)) (extracted imgs ! 0)
                   @ [(''fcTL'', fcTL_payload (constructor_fields (hd imgs) F N) 1)]
                   @ map (\<lambda>(n, b). (''fdAT'', be32 (of_nat n) @ b)) (enumerate 2 (extracted imgs ! 1))
                   @ [(''IEND'', [])]
              \<and> be_value (take 4 (fcTL_payload (constructor_fields (hd imgs) F N) 0)) = 0
              \<and> be_value (take 4 (fcTL_payload (constructor_fields (hd imgs) F N) 1)) = 1)"
proof -
  let ?obj = "constructor_fields (hd imgs) F N"
  let ?pl = "extracted imgs"
  let ?fs = "concat (frame_list ?obj 0 0 ?pl)"
  let ?ih = "be32 (word_of_int (canvas_width (hd imgs)))
             @ be32 (word_of_int (canvas_height (hd imgs))) @ [8, 6, 0, 0, 0]"
  let ?ac = "be32 (of_nat (length imgs))
             @ be32 (word_of_int (js_to_integer (js_or N (Number (Finite 0)))))"
  let ?cs = "(''IHDR'', ?ih) # (''acTL'', ?ac) # ?fs @ [(''IEND'', [])]"
  have cs: "blob_chunks blob = Some ?cs"
    by (rule stream_chunks [OF assms(1,2)])
  have one: "length (payloads_of ''fcTL'' ?cs) = 1
              \<and> payloads_of ''IDAT'' ?cs = ?pl ! 0
              \<and> payloads_of ''fdAT'' ?cs = []
              \<and> (\<forall>header idats len4 rest.
                    length header = 33 \<and> (\<forall>dc \<in> set idats. block_ok dc) \<and> length len4 = 4
                    \<and> toBlob (imgs ! 0)
                      = still_image header idats (len4 @ type_bytes ''IEND'' @ rest) \<longrightarrow>
                    payloads_of ''IDAT'' ?cs = map fst idats
                    \<and> length (payloads_of ''IDAT'' ?cs) = length idats)" if "length imgs = 1"
  proof -
    from that obtain c0 where imgs: "imgs = [c0]"
      by (auto simp: length_Suc_conv)
    obtain p0 where pl: "?pl = [p0]"
      by (simp add: imgs extracted_def)
    have a: "payloads_of ''fcTL'' ?cs = [fcTL_payload ?obj 0]"
      "payloads_of ''IDAT'' ?cs = p0" "payloads_of ''fdAT'' ?cs = []"
      by (simp_all add: pl payloads_of_simps payloads_of_append frame_chunks_payloads)
    have b: "p0 = map fst idats"
      if "length header = 33 \<and> (\<forall>dc \<in> set idats. block_ok dc) \<and> length len4 = 4
          \<and> toBlob (imgs ! 0) = still_image header idats (len4 @ type_bytes ''IEND'' @ rest)"
      for header idats len4 rest
    proof -
      from that have "lookForIDAT (toBlob c0) = Inr (map fst idats)"
        using lookForIDAT_still_image [of header idats len4 "''IEND''" rest]
        by (simp add: imgs)
      with pl show ?thesis
        by (simp add: imgs extracted_def)
    qed
    show ?thesis
      unfolding a using b by (auto simp: pl)
  qed
  have two: "?cs = [(''IHDR'', ?ih), (''acTL'', be32 2 @ be32 (word_of_int (js_to_integer (js_or N (Number (Finite 0)))))),
                    (''fcTL'', fcTL_payload ?obj 0)]
                   @ map (\<lambda>b. (''IDAT'', b)) (?pl ! 0)
                   @ [(''fcTL'', fcTL_payload ?obj 1)]
                   @ map (\<lambda>(n, b). (''fdAT'', be32 (of_nat n) @ b)) (enumerate 2 (?pl ! 1))
                   @ [(''IEND'', [])]
              \<and> be_value (take 4 (fcTL_payload ?obj 0)) = 0
              \<and> be_value (take 4 (fcTL_payload ?obj 1)) = 1" if "length imgs = 2"
  proof -
    from that obtain c0 c1 where imgs: "imgs = [c0, c1]"
      by (auto simp: length_Suc_conv numeral_2_eq_2)
    obtain p0 p1 where pl: "?pl = [p0, p1]"
      by (simp add: imgs extracted_def)
    have s2: "Suc (Suc 0) = 2" by simp
    have "?fs = (''fcTL'', fcTL_payload ?obj 0) # map (\<lambda>b. (''IDAT'', b)) p0
              @ (''fcTL'', fcTL_payload ?obj 1)
              # map (\<lambda>(n, b). (''fdAT'', be32 (of_nat n) @ b)) (enumerate 2 p1)"
      by (simp add: pl frame_chunks_def next_seq_def s2)
    moreover have "be_value (take 4 (fcTL_payload ?obj 0)) = 0"
      "be_value (take 4 (fcTL_payload ?obj 1)) = 1"
      by (simp_all add: fcTL_payload_seq)
    ultimately show ?thesis
      by (simp add: pl that)
  qed
  show ?thesis
    by (rule exI [of _ ?cs]) (rule conjI [OF cs conjI [OF impI [OF one] impI [OF two]]])
qed



theorem first_frame_IDAT_later_fdAT_witness:
  "new_APNGmaker [example_canvas [[1, 2, 3]]] Undefined Undefined
   = Inr (build ((constructor_fields (example_canvas [[1, 2, 3]]) Undefined Undefined)
                 \<lparr>images := [[[1, 2, 3]]]\<rparr>))
   \<and> length (toBlob (example_canvas [[1, 2, 3]])) < 2 ^ 32
   \<and> length [example_canvas [[1, 2, 3]]] = 1
   \<and> length (png_signature @ buildChunk ''IHDR'' (be32 1 @ be32 1 @ [8, 6, 0, 0, 0])) = 33
   \<and> block_ok ([1, 2, 3], be32 (crc32 (type_bytes ''IDAT'' @ [1, 2, 3])))
   \<and> length (be32 0) = 4
   \<and> toBlob ([example_canvas [[1, 2, 3]]] ! 0)
     = still_image (png_signature @ buildChunk ''IHDR'' (be32 1 @ be32 1 @ [8, 6, 0, 0, 0]))
         [([1, 2, 3], be32 (crc32 (type_bytes ''IDAT'' @ [1, 2, 3])))]
         (be32 0 @ type_bytes ''IEND'' @ be32 (crc32 (type_bytes ''IEND'')))
   \<and> (\<exists>cs. blob_chunks (build ((constructor_fields (example_canvas [[1, 2, 3]]) Undefined Undefined)
                 \<lparr>images := [[[1, 2, 3]]]\<rparr>)) = Some cs
         \<and> length (payloads_of ''fcTL'' cs) = 1
         \<and> payloads_of ''IDAT'' cs = [[1, 2, 3]]
         \<and> length (payloads_of ''IDAT'' cs) = 1
         \<and> payloads_of ''fdAT'' cs = [])
   \<and> new_APNGmaker example_frames Undefined Undefined
   = Inr (build ((constructor_fields (example_canvas [[1, 2, 3]]) Undefined Undefined)
                 \<lparr>images := [[[1, 2, 3]], [[4], [5, 6]]]\<rparr>))
   \<and> length (toBlob (example_canvas [[4], [5, 6]])) < 2 ^ 32
   \<and> length example_frames = 2
   \<and> (\<exists>ih ac f0 f1.
         blob_chunks (build ((constructor_fields (example_canvas [[1, 2, 3]]) Undefined Undefined)
                 \<lparr>images := [[[1, 2, 3]], [[4], [5, 6]]]\<rparr>))
         = Some [(''IHDR'', ih), (''acTL'', ac), (''fcTL'', f0), (''IDAT'', [1, 2, 3]),
                 (''fcTL'', f1), (''fdAT'', [0, 0, 0, 2, 4]), (''fdAT'', [0, 0, 0, 3, 5, 6]),
                 (''IEND'', [])])"
proof -
  let ?blob1 = "build ((constructor_fields (example_canvas [[1, 2, 3]]) Undefined Undefined)
                 \<lparr>images := [[[1, 2, 3]]]\<rparr>)"
  let ?blob2 = "build ((constructor_fields (example_canvas [[1, 2, 3]]) Undefined Undefined)
                 \<lparr>images := [[[1, 2, 3]], [[4], [5, 6]]]\<rparr>)"
  let ?header = "png_signature @ buildChunk ''IHDR'' (be32 1 @ be32 1 @ [8, 6, 0, 0, 0])"
  let ?idats = "[([1, 2, 3], be32 (crc32 (type_bytes ''IDAT'' @ [1, 2, 3])))] :: (bytes \<times> bytes) list"
  let ?len4 = "be32 0"
  let ?rest = "be32 (crc32 (type_bytes ''IEND''))"
  have s1: "new_APNGmaker [example_canvas [[1, 2, 3]]] Undefined Undefined = Inr ?blob1"
    by (rule new_APNGmaker_example_1)
  have l1: "\<forall>can \<in> set [example_canvas [[1, 2, 3]]]. length (toBlob can) < 2 ^ 32"
    by (simp add: length_example_canvas length_buildChunk)
  have l: "length (toBlob (example_canvas [[1, 2, 3]])) < 2 ^ 32"
    "length (toBlob (example_canvas [[4], [5, 6]])) < 2 ^ 32"
    by (simp_all add: length_example_canvas length_buildChunk)
  have n1: "length [example_canvas [[1, 2, 3]]] = 1"
    by simp
  have h: "length ?header = 33"
    by (simp add: png_signature_def length_buildChunk length_be32)
  have bo: "block_ok ([1, 2, 3], be32 (crc32 (type_bytes ''IDAT'' @ [1, 2, 3])))"
    by (simp add: block_ok_def length_be32)
  have l4: "length ?len4 = 4"
    by (rule length_be32)
  have tb: "toBlob ([example_canvas [[1, 2, 3]]] ! 0) = still_image ?header ?idats (?len4 @ type_bytes ''IEND'' @ ?rest)"
    by (simp add: example_canvas_def example_png_still_image)
  have s2: "new_APNGmaker example_frames Undefined Undefined = Inr ?blob2"
    by (rule new_APNGmaker_example_frames)
  have n2: "length example_frames = 2"
    by (simp add: example_frames_def)
  from first_frame_IDAT_later_fdAT [OF s1 l1]
  have w1: "\<exists>cs. blob_chunks ?blob1 = Some cs
         \<and> length (payloads_of ''fcTL'' cs) = 1
         \<and> payloads_of ''IDAT'' cs = [[1, 2, 3]]
         \<and> length (payloads_of ''IDAT'' cs) = 1
         \<and> payloads_of ''fdAT'' cs = []"
    apply (elim exE conjE)
    subgoal premises p for cs
    proof -
      note q = p(2) [THEN mp, OF n1]
      have i: "payloads_of ''IDAT'' cs = map fst ?idats
               \<and> length (payloads_of ''IDAT'' cs) = length ?idats"
        by (rule q [THEN conjunct2, THEN conjunct2, THEN conjunct2, rule_format,
              of ?header ?idats ?len4 ?rest])
           (use h bo l4 tb in simp)
      show ?thesis
        using p(1) q [THEN conjunct1] q [THEN conjunct2, THEN conjunct2, THEN conjunct1] i
        by (intro exI [of _ cs]) simp
    qed
    done
  have e: "enumerate 2 [[4], [5, 6 :: byte]] = [(2, [4]), (3, [5, 6])]"
    by (simp add: enumerate_simps)
  have b: "be32 2 = [0, 0, 0, 2]" "be32 3 = [0, 0, 0, 3]"
    by (simp_all add: be32_def)
  from first_frame_IDAT_later_fdAT [OF s2 example_frames_sizes]
  have w2: "\<exists>ih ac f0 f1. blob_chunks ?blob2
         = Some [(''IHDR'', ih), (''acTL'', ac), (''fcTL'', f0), (''IDAT'', [1, 2, 3]),
                 (''fcTL'', f1), (''fdAT'', [0, 0, 0, 2, 4]), (''fdAT'', [0, 0, 0, 3, 5, 6]),
                 (''IEND'', [])]"
    apply (elim exE conjE)
    subgoal premises p for cs
      using p(1) p(3) [THEN mp, OF n2]
      by (simp add: extracted_example_frames e b)
    done
  show ?thesis
    using s1 l n1 h bo l4 tb w1 s2 n2 w2
    by (intro conjI) assumption+
qed

theorem one_frame_without_IDAT_counterexample:
  "map_option (payloads_of ''IDAT'')
     (built_chunks (new_APNGmaker [example_canvas []] Undefined Undefined))
   = Some []"
proof -
  let ?obj = "constructor_fields (example_canvas []) Undefined Undefined"
  have x: "lookForIDAT (toBlob (example_canvas [])) = Inr []"
    by (simp add: lookForIDAT_example_canvas)
  have e: "extracted [example_canvas []] = [[]]"
    by (simp add: extracted_def x)
  have s: "new_APNGmaker [example_canvas []] Undefined Undefined
           = Inr (build (?obj\<lparr>images := extracted [example_canvas []]\<rparr>))"
    using new_APNGmaker_succeeds [of "[example_canvas []]" Undefined Undefined]
    by (simp add: x)
  have l: "\<forall>can \<in> set [example_canvas []]. length (toBlob can) < 2 ^ 32"
    by (simp add: length_example_canvas)
  show ?thesis
    unfolding s built_chunks_Inr stream_chunks [OF s l]
    by (simp add: e payloads_of_simps payloads_of_append frame_chunks_payloads)
qed

text \<open>
  C6: for a still image that is 33 bytes of signature and header, then \<^verbatim>\<open>IDAT\<close> chunks
  with blocks shorter than \<open>2^32\<close> bytes, then the \<^verbatim>\<open>IEND\<close> chunk, the extractor returns
  exactly the blocks, byte for byte and in stream order; with a single \<^verbatim>\<open>IDAT\<close> chunk the
  result is the one-element list of its data.
\<close>

theorem lookForIDAT_extracts_blocks:
  assumes "length header = 33" and "\<forall>dc \<in> set idats. block_ok dc" and "length len4 = 4"
  shows "lookForIDAT (still_image header idats (len4 @ type_bytes ''IEND'' @ rest))
         = Inr (map fst idats)"
  using lookForIDAT_still_image [OF assms(1,2,3), of "''IEND''" rest] by simp

theorem lookForIDAT_extracts_blocks_witness:
  "length (replicate 33 (0 :: byte)) = 33 \<and> block_ok ([1, 2, 3], [0, 0, 0, 0])
   \<and> length ([0, 0, 0, 0] :: bytes) = 4
   \<and> lookForIDAT (still_image (replicate 33 0) [([1, 2, 3], [0, 0, 0, 0])]
         ([0, 0, 0, 0] @ type_bytes ''IEND'' @ [0xAE, 0x42, 0x60, 0x82])) = Inr [[1, 2, 3]]"
  using lookForIDAT_extracts_blocks [of "replicate 33 0" "[([1, 2, 3], [0, 0, 0, 0])]"
      "[0, 0, 0, 0]" "[0xAE, 0x42, 0x60, 0x82]"]
  by (simp add: block_ok_def)

text \<open>
  C7: when the first chunk after the \<^verbatim>\<open>IDAT\<close> chunks of a frame has a type other than
  \<^verbatim>\<open>IDAT\<close> and \<^verbatim>\<open>IEND\<close>, the extraction of that frame throws the offending type, and
  the constructor returns an error instead of an output buffer.
\<close>

theorem unexpected_chunk_fails_build:
  assumes "length header = 33" and "\<forall>dc \<in> set idats. block_ok dc" and "length len4 = 4"
    and "length tag = 4" and "tag \<noteq> ''IDAT''" and "tag \<noteq> ''IEND''"
    and "can \<in> set imgs"
    and "toBlob can = still_image header idats (len4 @ type_bytes tag @ rest)"
  shows "lookForIDAT (toBlob can) = Inl (UnexpectedChunk tag)
         \<and> (\<exists>e. new_APNGmaker imgs F N = Inl e)"
proof -
  have x: "lookForIDAT (toBlob can) = Inl (UnexpectedChunk tag)"
    using lookForIDAT_still_image [OF assms(1,2,3,4,5), of rest] assms(6,8) by simp
  from assms(7) obtain c cs where imgs: "imgs = c # cs" by (cases imgs) simp_all
  from add_all_fails [OF assms(7) x, of "constructor_fields c F N"]
  obtain e where "add_all (constructor_fields c F N) imgs = Inl e" ..
  then have "new_APNGmaker imgs F N = Inl e"
    by (simp add: new_APNGmaker_def imgs)
  with x show ?thesis by blast
qed

theorem unexpected_chunk_fails_build_witness:
  "length (replicate 33 (0 :: byte)) = 33 \<and> block_ok ([1, 2, 3], [0, 0, 0, 0])
   \<and> length ([0, 0, 0, 0] :: bytes) = 4 \<and> length ''XXXX'' = 4
   \<and> ''XXXX'' \<noteq> ''IDAT'' \<and> ''XXXX'' \<noteq> ''IEND''
   \<and> lookForIDAT (still_image (replicate 33 0) [([1, 2, 3], [0, 0, 0, 0])]
         ([0, 0, 0, 0] @ type_bytes ''XXXX'' @ [])) = Inl (UnexpectedChunk ''XXXX'')
   \<and> (\<exists>e. new_APNGmaker
         [example_canvas [[7]],
          \<lparr>canvas_width = 1, canvas_height = 1,
           toBlob = still_image (replicate 33 0) [([1, 2, 3], [0, 0, 0, 0])]
             ([0, 0, 0, 0] @ type_bytes ''XXXX'' @ [])\<rparr>] Undefined Undefined = Inl e)"
  using unexpected_chunk_fails_build [of "replicate 33 0" "[([1, 2, 3], [0, 0, 0, 0])]"
      "[0, 0, 0, 0]" "''XXXX''"
      "\<lparr>canvas_width = 1, canvas_height = 1,
           toBlob = still_image (replicate 33 0) [([1, 2, 3], [0, 0, 0, 0])]
             ([0, 0, 0, 0] @ type_bytes ''XXXX'' @ [])\<rparr>"
      "[example_canvas [[7]],
          \<lparr>canvas_width = 1, canvas_height = 1,
           toBlob = still_image (replicate 33 0) [([1, 2, 3], [0, 0, 0, 0])]
             ([0, 0, 0, 0] @ type_bytes ''XXXX'' @ [])\<rparr>]" "[]" Undefined Undefined]
  by (simp add: block_ok_def)

text \<open>
  C8: with no input frame the constructor throws a \<^verbatim>\<open>TypeError\<close> (it reads the size of
  the first canvas) and builds nothing. The assembly step itself, run on an object with
  an empty image list, returns a stream of three chunks: \<^verbatim>\<open>IHDR\<close>, \<^verbatim>\<open>acTL\<close> with
  frame count 0, \<^verbatim>\<open>IEND\<close>.
\<close>

theorem build_without_frames:
  "new_APNGmaker [] F N = Inl TypeError
   \<and> blob_chunks (build (constructor_fields image0 F N))
     = Some [(''IHDR'', be32 (word_of_int (canvas_width image0))
                        @ be32 (word_of_int (canvas_height image0)) @ [8, 6, 0, 0, 0]),
             (''acTL'', be32 0 @ be32 (word_of_int (js_to_integer (js_or N (Number (Finite 0)))))),
             (''IEND'', [])]
   \<and> fst (acTL_fields
            (be32 0 @ be32 (word_of_int (js_to_integer (js_or N (Number (Finite 0))))))) = 0"
proof -
  let ?obj = "constructor_fields image0 F N"
  have "blob_chunks (build ?obj)
        = Some ((''IHDR'', be32 (word_of_int (canvas_width image0))
                        @ be32 (word_of_int (canvas_height image0)) @ [8, 6, 0, 0, 0])
             # (''acTL'', be32 (of_nat (length (images ?obj))) @ be32 (word_of_int (js_to_integer (numplays ?obj))))
             # concat (frame_list ?obj 0 0 (images ?obj)) @ [(''IEND'', [])])"
    by (rule build_chunks) (simp_all add: constructor_fields_simps length_be32)
  then show ?thesis
    by (simp add: constructor_fields_simps new_APNGmaker_def acTL_fields_eq)
qed

theorem zero_frames_counterexample:
  "new_APNGmaker [] Undefined Undefined = Inl TypeError"
  by (simp add: new_APNGmaker_def)

text \<open>
  C9: the Blob that a build returns is tagged \<^verbatim>\<open>image/apng\<close>, not \<^verbatim>\<open>image/png\<close>.
\<close>

theorem blob_type_image_apng:
  "map_sum id blob_type (new_APNGmaker [example_canvas [[1, 2, 3]]] Undefined Undefined)
   = Inr ''image/apng''"
  by (simp add: new_APNGmaker_example_1 build_def Let_def)

text \<open>
  C10: in the chunk stream of a build, every \<^verbatim>\<open>fcTL\<close> chunk carries the delay numerator 1.
  The denominator is 30 when the \<^verbatim>\<open>FPS\<close> argument is omitted, 0 or another falsy value
  (\<^verbatim>\<open>null\<close>, \<^verbatim>\<open>false\<close>, the empty string, \<^verbatim>\<open>NaN\<close>). For a truthy argument it is what
  \<^verbatim>\<open>setUint16\<close> stores: the number that the argument converts to, truncated toward zero
  and reduced modulo \<open>2^16\<close> (the number itself when it is an integer from 1 to 65535),
  1 for \<^verbatim>\<open>true\<close>, 0 when the conversion gives \<^verbatim>\<open>NaN\<close> or an infinity. The \<^verbatim>\<open>acTL\<close> chunk
  carries the play count 0 when \<^verbatim>\<open>numplays\<close> is omitted.
\<close>

theorem delay_and_play_count:
  assumes "new_APNGmaker imgs F N = Inr blob"
    and "\<forall>can \<in> set imgs. length (toBlob can) < 2 ^ 32"
  shows "\<exists>cs. blob_chunks blob = Some cs
         \<and> (F = Undefined \<or> F = Null \<or> F = Boolean False \<or> F = EmptyString
              \<or> F = Number NaN \<or> F = Number (Finite 0) \<longrightarrow>
              delay_fractions cs = replicate (length imgs) (1, 30))
         \<and> (\<forall>q. F = Number (Finite q) \<and> q \<noteq> 0 \<or> F = Other (Finite q) \<longrightarrow>
              delay_fractions cs
              = replicate (length imgs)
                  (1, nat ((if 0 \<le> q then \<lfloor>q\<rfloor> else - \<lfloor>- q\<rfloor>) mod 65536)))
         \<and> (\<forall>k. F = Number (Finite (of_int k)) \<and> 1 \<le> k \<and> k \<le> 65535 \<longrightarrow>
              delay_fractions cs = replicate (length imgs) (1, nat k))
         \<and> (F = Boolean True \<longrightarrow> delay_fractions cs = replicate (length imgs) (1, 1))
         \<and> (F = Number Infinity \<or> F = Number MinusInfinity
              \<or> F = Other NaN \<or> F = Other Infinity \<or> F = Other MinusInfinity \<longrightarrow>
              delay_fractions cs = replicate (length imgs) (1, 0))
         \<and> (N = Undefined \<longrightarrow> map (snd \<circ> acTL_fields) (payloads_of ''acTL'' cs) = [0])"
proof -
  let ?obj = "constructor_fields (hd imgs) F N"
  let ?pl = "extracted imgs"
  let ?fs = "concat (frame_list ?obj 0 0 ?pl)"
  let ?ih = "be32 (word_of_int (canvas_width (hd imgs)))
             @ be32 (word_of_int (canvas_height (hd imgs))) @ [8, 6, 0, 0, 0]"
  let ?ac = "be32 (of_nat (length imgs))
             @ be32 (word_of_int (js_to_integer (js_or N (Number (Finite 0)))))"
  let ?cs = "(''IHDR'', ?ih) # (''acTL'', ?ac) # ?fs @ [(''IEND'', [])]"
  let ?den = "nat (js_to_integer (js_or F (Number (Finite 30))) mod 65536)"
  have cs: "blob_chunks blob = Some ?cs"
    by (rule stream_chunks [OF assms(1,2)])
  have len: "length ?pl = length imgs" by (simp add: extracted_def)
  have "delay_fractions ?cs = delay_fractions ?fs"
    by (simp add: delay_fractions_def payloads_of_simps payloads_of_append)
  then have d: "delay_fractions ?cs = replicate (length imgs) (1, ?den)"
    by (simp add: frame_list_delays len constructor_fields_simps unat_word_of_int_16)
  have d0: "delay_fractions ?cs = replicate (length imgs) (1, 30)"
    if "F = Undefined \<or> F = Null \<or> F = Boolean False \<or> F = EmptyString
        \<or> F = Number NaN \<or> F = Number (Finite 0)"
    using that d by (auto simp: js_or_simps js_to_integer_simps)
  have dq: "delay_fractions ?cs
            = replicate (length imgs) (1, nat ((if 0 \<le> q then \<lfloor>q\<rfloor> else - \<lfloor>- q\<rfloor>) mod 65536))"
    if "F = Number (Finite q) \<and> q \<noteq> 0 \<or> F = Other (Finite q)" for q
    using that d by (auto simp: js_or_simps js_to_integer_simps)
  have dk: "delay_fractions ?cs = replicate (length imgs) (1, nat k)"
    if "F = Number (Finite (of_int k)) \<and> 1 \<le> k \<and> k \<le> 65535" for k
    using that d by (simp add: js_or_simps js_to_integer_simps)
  have dt: "delay_fractions ?cs = replicate (length imgs) (1, 1)" if "F = Boolean True"
    using that d by (simp add: js_or_simps js_to_integer_simps)
  have di: "delay_fractions ?cs = replicate (length imgs) (1, 0)"
    if "F = Number Infinity \<or> F = Number MinusInfinity
        \<or> F = Other NaN \<or> F = Other Infinity \<or> F = Other MinusInfinity"
    using that d by (auto simp: js_or_simps js_to_integer_simps)
  have "payloads_of ''acTL'' ?cs = [?ac]"
    by (simp add: payloads_of_simps payloads_of_append frame_list_other_tags)
  then have p: "map (snd \<circ> acTL_fields) (payloads_of ''acTL'' ?cs) = [0]" if "N = Undefined"
    using that by (simp add: acTL_fields_eq js_or_simps js_to_integer_simps)
  show ?thesis
    by (rule exI [of _ ?cs])
       (rule conjI [OF cs conjI [OF impI [OF d0] conjI [OF allI [OF impI [OF dq]]
          conjI [OF allI [OF impI [OF dk]] conjI [OF impI [OF dt]
          conjI [OF impI [OF di] impI [OF p]]]]]]])
qed

theorem delay_and_play_count_witness:
  "(1 :: int) \<le> 60 \<and> (60 :: int) \<le> 65535 \<and> (2997 / 100 :: rat) \<noteq> 0
   \<and> length (toBlob (example_canvas [[1, 2, 3]])) < 2 ^ 32
   \<and> length (toBlob (example_canvas [[4], [5, 6]])) < 2 ^ 32
   \<and> new_APNGmaker example_frames (Number (Finite 60)) Undefined
     = Inr (build ((constructor_fields (example_canvas [[1, 2, 3]]) (Number (Finite 60)) Undefined)
                   \<lparr>images := [[[1, 2, 3]], [[4], [5, 6]]]\<rparr>))
   \<and> (\<exists>cs. blob_chunks (build ((constructor_fields (example_canvas [[1, 2, 3]]) (Number (Finite 60)) Undefined)
                   \<lparr>images := [[[1, 2, 3]], [[4], [5, 6]]]\<rparr>)) = Some cs
         \<and> delay_fractions cs = [(1, 60), (1, 60)]
         \<and> map (snd \<circ> acTL_fields) (payloads_of ''acTL'' cs) = [0])
   \<and> new_APNGmaker example_frames (Number (Finite (2997 / 100))) Undefined
     = Inr (build ((constructor_fields (example_canvas [[1, 2, 3]]) (Number (Finite (2997 / 100))) Undefined)
                   \<lparr>images := [[[1, 2, 3]], [[4], [5, 6]]]\<rparr>))
   \<and> (\<exists>cs. blob_chunks (build ((constructor_fields (example_canvas [[1, 2, 3]]) (Number (Finite (2997 / 100))) Undefined)
                   \<lparr>images := [[[1, 2, 3]], [[4], [5, 6]]]\<rparr>)) = Some cs
         \<and> delay_fractions cs = [(1, 29), (1, 29)])
   \<and> new_APNGmaker example_frames Undefined Undefined
     = Inr (build ((constructor_fields (example_canvas [[1, 2, 3]]) Undefined Undefined)
                   \<lparr>images := [[[1, 2, 3]], [[4], [5, 6]]]\<rparr>))
   \<and> (\<exists>cs. blob_chunks (build ((constructor_fields (example_canvas [[1, 2, 3]]) Undefined Undefined)
                   \<lparr>images := [[[1, 2, 3]], [[4], [5, 6]]]\<rparr>)) = Some cs
         \<and> delay_fractions cs = [(1, 30), (1, 30)])
   \<and> new_APNGmaker example_frames (Boolean True) Undefined
     = Inr (build ((constructor_fields (example_canvas [[1, 2, 3]]) (Boolean True) Undefined)
                   \<lparr>images := [[[1, 2, 3]], [[4], [5, 6]]]\<rparr>))
   \<and> (\<exists>cs. blob_chunks (build ((constructor_fields (example_canvas [[1, 2, 3]]) (Boolean True) Undefined)
                   \<lparr>images := [[[1, 2, 3]], [[4], [5, 6]]]\<rparr>)) = Some cs
         \<and> delay_fractions cs = [(1, 1), (1, 1)])
   \<and> new_APNGmaker example_frames (Number Infinity) Undefined
     = Inr (build ((constructor_fields (example_canvas [[1, 2, 3]]) (Number Infinity) Undefined)
                   \<lparr>images := [[[1, 2, 3]], [[4], [5, 6]]]\<rparr>))
   \<and> (\<exists>cs. blob_chunks (build ((constructor_fields (example_canvas [[1, 2, 3]]) (Number Infinity) Undefined)
                   \<lparr>images := [[[1, 2, 3]], [[4], [5, 6]]]\<rparr>)) = Some cs
         \<and> delay_fractions cs = [(1, 0), (1, 0)])
   \<and> new_APNGmaker example_frames (Other (Finite 60)) Undefined
     = Inr (build ((constructor_fields (example_canvas [[1, 2, 3]]) (Other (Finite 60)) Undefined)
                   \<lparr>images := [[[1, 2, 3]], [[4], [5, 6]]]\<rparr>))
   \<and> (\<exists>cs. blob_chunks (build ((constructor_fields (example_canvas [[1, 2, 3]]) (Other (Finite 60)) Undefined)
                   \<lparr>images := [[[1, 2, 3]], [[4], [5, 6]]]\<rparr>)) = Some cs
         \<and> delay_fractions cs = [(1, 60), (1, 60)])"
proof -
  let ?blob = "\<lambda>F. build ((constructor_fields (example_canvas [[1, 2, 3]]) F Undefined)
                   \<lparr>images := [[[1, 2, 3]], [[4], [5, 6]]]\<rparr>)"
  have s: "new_APNGmaker example_frames F Undefined = Inr (?blob F)" for F
    by (rule new_APNGmaker_example_frames)
  have l: "length (toBlob (example_canvas [[1, 2, 3]])) < 2 ^ 32"
    "length (toBlob (example_canvas [[4], [5, 6]])) < 2 ^ 32"
    by (simp_all add: length_example_canvas length_buildChunk)
  have n2: "length example_frames = 2"
    by (simp add: example_frames_def)
  have r: "replicate 2 x = [x, x]" for x :: "nat \<times> nat"
    by (simp add: numeral_2_eq_2)
  from delay_and_play_count [OF s [of "Number (Finite 60)"] example_frames_sizes]
  have w1: "\<exists>cs. blob_chunks (?blob (Number (Finite 60))) = Some cs \<and> delay_fractions cs = [(1, 60), (1, 60)]
         \<and> map (snd \<circ> acTL_fields) (payloads_of ''acTL'' cs) = [0]"
    apply (elim exE conjE)
    subgoal premises p for cs
      using p(1) p(4) [rule_format, of 60] p(7)
      by (intro exI [of _ cs]) (simp add: n2 r)
    done
  have fl: "\<lfloor>2997 / 100 :: rat\<rfloor> = 29"
    by (simp add: floor_eq_iff)
  from delay_and_play_count [OF s [of "Number (Finite (2997 / 100))"] example_frames_sizes]
  have w2: "\<exists>cs. blob_chunks (?blob (Number (Finite (2997 / 100)))) = Some cs
         \<and> delay_fractions cs = [(1, 29), (1, 29)]"
    apply (elim exE conjE)
    subgoal premises p for cs
      using p(1) p(3) [rule_format, of "2997 / 100"]
      by (intro exI [of _ cs]) (simp add: n2 r fl)
    done
  from delay_and_play_count [OF s [of Undefined] example_frames_sizes]
  have w3: "\<exists>cs. blob_chunks (?blob Undefined) = Some cs \<and> delay_fractions cs = [(1, 30), (1, 30)]"
    apply (elim exE conjE)
    subgoal premises p for cs
      using p(1) p(2)
      by (intro exI [of _ cs]) (simp add: n2 r)
    done
  from delay_and_play_count [OF s [of "Boolean True"] example_frames_sizes]
  have w4: "\<exists>cs. blob_chunks (?blob (Boolean True)) = Some cs \<and> delay_fractions cs = [(1, 1), (1, 1)]"
    apply (elim exE conjE)
    subgoal premises p for cs
      using p(1) p(5)
      by (intro exI [of _ cs]) (simp add: n2 r)
    done
  from delay_and_play_count [OF s [of "Number Infinity"] example_frames_sizes]
  have w5: "\<exists>cs. blob_chunks (?blob (Number Infinity)) = Some cs \<and> delay_fractions cs = [(1, 0), (1, 0)]"
    apply (elim exE conjE)
    subgoal premises p for cs
      using p(1) p(6)
      by (intro exI [of _ cs]) (simp add: n2 r)
    done
  from delay_and_play_count [OF s [of "Other (Finite 60)"] example_frames_sizes]
  have w6: "\<exists>cs. blob_chunks (?blob (Other (Finite 60))) = Some cs
         \<and> delay_fractions cs = [(1, 60), (1, 60)]"
    apply (elim exE conjE)
    subgoal premises p for cs
      using p(1) p(3) [rule_format, of 60]
      by (intro exI [of _ cs]) (simp add: n2 r)
    done
  from l s w1 w2 w3 w4 w5 w6 show ?thesis by simp
qed

theorem FPS_65536_counterexample:
  "map_option delay_fractions
     (built_chunks (new_APNGmaker [example_canvas [[1, 2, 3]]] (Number (Finite 65536)) Undefined))
   = Some [(1, 0)]"
proof -
  let ?obj = "constructor_fields (example_canvas [[1, 2, 3]]) (Number (Finite 65536)) Undefined"
  let ?blob = "build (?obj\<lparr>images := [[[1, 2, 3]]]\<rparr>)"
  have s: "new_APNGmaker [example_canvas [[1, 2, 3]]] (Number (Finite 65536)) Undefined = Inr ?blob"
    by (rule new_APNGmaker_example_1)
  have l: "\<forall>can \<in> set [example_canvas [[1, 2, 3]]]. length (toBlob can) < 2 ^ 32"
    by (simp add: length_example_canvas length_buildChunk)
  have f: "unat (word_of_int (js_to_integer (FPS ?obj)) :: 16 word) = 0"
    by (simp add: constructor_fields_simps js_or_simps js_to_integer_simps unat_word_of_int_16)
  have d: "delay_fractions (concat (frame_list ?obj 0 0 [[[1, 2, 3]]])) = [(1, 0)]"
    using frame_list_delays [of ?obj 0 0 "[[[1, 2, 3]]]"]
    by (simp only: f) simp
  show ?thesis
    unfolding s built_chunks_Inr stream_chunks [OF s l]
    using d
    by (simp add: delay_fractions_def payloads_of_simps payloads_of_append extracted_example_1)
qed

end
